theory Spec2Isabelle
  imports Main "HOL-Library.Product_Lexorder" "HOL-Library.AList"
begin

section \<open>Data model\<close>

text \<open>
  The graph engine of GraphApp lives in two Python functions:
  \<open>analyze_graph\<close> (final_perform_analysis) and \<open>make_random_graph\<close> with
  \<open>validate_parameters\<close> (final_generate_random).

  A graph description is the JSON object \<open>{"vertices": [...], "edges": [[a, b, w], ...]}\<close>.
  Vertex ids and edge weights are Python ints (unbounded), as the generator writes them.

  Python exceptions are values of the type \<open>error\<close>; a function that may raise returns
  \<open>error + 'a\<close> with \<open>Inl\<close> for the exception.
\<close>

datatype error =
    KeyError | IndexError | ValueError | OverflowError | RecursionError | Exception string

record graph_data =
  vertices :: "int list"
  edges :: "(int \<times> int \<times> int) list"

text \<open>
  \<open>graph_AL\<close> is a dict of dicts, \<open>{ start => { end => weight } }\<close>. Python dicts
  iterate in the order of first insertion and an assignment to an existing key keeps its
  place: this is \<open>AList.update\<close> on an association list, read with \<open>map_of\<close>.
\<close>

type_synonym adjacency = "(int \<times> (int \<times> int) list) list"

section \<open>Floating-point weights\<close>

text \<open>
  The analysis converts every weight with \<open>float(edge[2])\<close>. A Python float is an IEEE
  double: 53 significant bits, finite below \<open>2 ^ 1024\<close>. \<open>float(n)\<close> of an int
  rounds \<open>n\<close> to the nearest double, ties to the even significand, and raises
  OverflowError when the rounded value is out of range. \<open>round_double n\<close> is the
  rounded value, itself an integer; the weights stored in \<open>graph_AL\<close> are such
  integers. \<open>bit_length\<close> is the number of bits of a positive int.

  Sums of floats are computed by Dijkstra's loop only, as \<open>weight + dist[cur]\<close> with a
  finite weight: the exact sum is rounded again and becomes an infinity when it leaves
  the range (additions do not raise). A distance is therefore a finite double or an
  infinity (\<open>pyfloat\<close>), ordered as Python compares them; no NaN can arise, one
  summand being finite.
\<close>

function bit_length :: "int \<Rightarrow> nat" where
  "bit_length n = (if n \<le> 0 then 0 else Suc (bit_length (n div 2)))"
  by pat_completeness auto
termination
  by (relation "measure nat") auto

declare bit_length.simps [simp del]

definition round_double :: "int \<Rightarrow> int" where
  "round_double n =
     (if \<bar>n\<bar> < 2 ^ 53 then n
      else (let e = bit_length \<bar>n\<bar> - 53;
                q = \<bar>n\<bar> div 2 ^ e;
                r = \<bar>n\<bar> mod 2 ^ e;
                half = 2 ^ (e - 1);
                q' = (if half < r \<or> (r = half \<and> odd q) then q + 1 else q)
            in sgn n * (q' * 2 ^ e)))"

definition py_float :: "int \<Rightarrow> error + int" where
  "py_float n =
     (if 2 ^ 1024 \<le> \<bar>round_double n\<bar> then Inl OverflowError else Inr (round_double n))"

datatype pyfloat = NegInf | Finite int | PosInf

instantiation pyfloat :: linorder
begin

fun less_eq_pyfloat :: "pyfloat \<Rightarrow> pyfloat \<Rightarrow> bool" where
  "less_eq_pyfloat NegInf y = True"
| "less_eq_pyfloat (Finite a) NegInf = False"
| "less_eq_pyfloat (Finite a) (Finite b) = (a \<le> b)"
| "less_eq_pyfloat (Finite a) PosInf = True"
| "less_eq_pyfloat PosInf y = (y = PosInf)"

definition less_pyfloat :: "pyfloat \<Rightarrow> pyfloat \<Rightarrow> bool" where
  "less_pyfloat x y \<longleftrightarrow> x \<le> y \<and> \<not> y \<le> x"

instance
proof
  fix x y z :: pyfloat
  show "(x < y) = (x \<le> y \<and> \<not> y \<le> x)" by (rule less_pyfloat_def)
  show "x \<le> x" by (cases x) simp_all
  show "x \<le> y \<Longrightarrow> y \<le> z \<Longrightarrow> x \<le> z"
    by (cases x; cases y; cases z) simp_all
  show "x \<le> y \<Longrightarrow> y \<le> x \<Longrightarrow> x = y"
    by (cases x; cases y) simp_all
  show "x \<le> y \<or> y \<le> x"
    by (cases x; cases y) auto
qed

end

definition add_weight :: "int \<Rightarrow> pyfloat \<Rightarrow> pyfloat" where
  "add_weight weight d =
     (case d of
        NegInf \<Rightarrow> NegInf
      | PosInf \<Rightarrow> PosInf
      | Finite x \<Rightarrow>
          (let s = round_double (weight + x)
           in if 2 ^ 1024 \<le> s then PosInf
              else if s \<le> - (2 ^ 1024) then NegInf
              else Finite s))"

datatype analysis_result =
    IsConnected bool
  | HasCycle "int list option"
  | ShortestPaths int "(int \<times> pyfloat \<times> int list option) list"
  | ReachableNodes int "int set"
  | Mst "(int \<times> int \<times> int) list option"

section \<open>Adjacency model\<close>

definition init_AL :: "int list \<Rightarrow> adjacency" where
  "init_AL vs = fold (\<lambda>v al. AList.update v [] al) vs []"

definition add_edge :: "int \<times> int \<times> int \<Rightarrow> adjacency \<Rightarrow> error + adjacency" where
  "add_edge e al =
     (case e of (node_A, node_B, w) \<Rightarrow>
        (case py_float w of
           Inl err \<Rightarrow> Inl err
         | Inr weight \<Rightarrow>
             (case map_of al node_A of
                None \<Rightarrow> Inl KeyError
              | Some nbrs_A \<Rightarrow>
                  (let al1 = AList.update node_A (AList.update node_B weight nbrs_A) al in
                     (case map_of al1 node_B of
                        None \<Rightarrow> Inl KeyError
                      | Some nbrs_B \<Rightarrow>
                          Inr (AList.update node_B (AList.update node_A weight nbrs_B) al1))))))"

fun add_edges :: "(int \<times> int \<times> int) list \<Rightarrow> adjacency \<Rightarrow> error + adjacency" where
  "add_edges [] al = Inr al"
| "add_edges (e # es) al =
     (case add_edge e al of Inl err \<Rightarrow> Inl err | Inr al' \<Rightarrow> add_edges es al')"

definition build_AL :: "graph_data \<Rightarrow> error + adjacency" where
  "build_AL g = add_edges (edges g) (init_AL (vertices g))"

section \<open>Breadth-first reachability\<close>

text \<open>
  The same loop serves \<open>is_connected\<close>, \<open>reachable_nodes\<close> and the first phase of
  \<open>mst\<close>: \<open>queue.pop(0)\<close> takes the head, the \<open>for destination in graph_AL[cur]\<close>
  loop is \<open>bfs_visit\<close>, and \<open>graph_AL[cur]\<close> raises KeyError for an unknown vertex.
\<close>

fun bfs_visit :: "int list \<Rightarrow> int set \<times> int list \<Rightarrow> int set \<times> int list" where
  "bfs_visit [] (reachable, queue) = (reachable, queue)"
| "bfs_visit (destination # ds) (reachable, queue) =
     (if destination \<in> reachable then bfs_visit ds (reachable, queue)
      else bfs_visit ds (insert destination reachable, queue @ [destination]))"

definition neighbour_ids :: "adjacency \<Rightarrow> int set" where
  "neighbour_ids al = (\<Union>(v, nbrs) \<in> set al. fst ` set nbrs)"

lemma finite_neighbour_ids: "finite (neighbour_ids al)"
  by (auto simp: neighbour_ids_def)

lemma map_of_neighbour_ids:
  "map_of al cur = Some nbrs \<Longrightarrow> set (map fst nbrs) \<subseteq> neighbour_ids al"
  by (auto simp: neighbour_ids_def dest!: map_of_SomeD)

lemma bfs_visit_measure:
  "finite U \<Longrightarrow> set ds \<subseteq> U \<Longrightarrow> bfs_visit ds (r, q) = (r', q') \<Longrightarrow>
   2 * card (U - r') + length q' \<le> 2 * card (U - r) + length q"
proof (induction ds arbitrary: r q)
  case Nil
  then show ?case by simp
next
  case (Cons d ds)
  show ?case
  proof (cases "d \<in> r")
    case True
    with Cons show ?thesis by simp
  next
    case False
    from Cons.prems have dU: "d \<in> U" by simp
    have "U - insert d r = (U - r) - {d}" by auto
    moreover have "d \<in> U - r" using dU False by simp
    ultimately have c: "card (U - insert d r) = card (U - r) - 1" "card (U - r) > 0"
      using Cons.prems(1) by (auto simp: card_gt_0_iff)
    from Cons.prems False
    have "bfs_visit ds (insert d r, q @ [d]) = (r', q')" by simp
    from Cons.IH[OF Cons.prems(1) _ this] Cons.prems(2)
    have "2 * card (U - r') + length q' \<le> 2 * card (U - insert d r) + length (q @ [d])"
      by simp
    with c show ?thesis by simp
  qed
qed

lemma bfs_step_decreases:
  assumes "map_of al cur = Some nbrs"
    and "bfs_visit (map fst nbrs) (r, q) = (r', q')"
  shows "2 * card (neighbour_ids al - r') + length q'
           < Suc (2 * card (neighbour_ids al - r) + length q)"
  using bfs_visit_measure[OF finite_neighbour_ids map_of_neighbour_ids[OF assms(1)] assms(2)]
  by simp

function bfs :: "adjacency \<Rightarrow> int list \<Rightarrow> int set \<Rightarrow> error + int set" where
  "bfs al [] reachable = Inr reachable"
| "bfs al (cur # queue) reachable =
     (case map_of al cur of
        None \<Rightarrow> Inl KeyError
      | Some nbrs \<Rightarrow>
          (case bfs_visit (map fst nbrs) (reachable, queue) of
             (reachable', queue') \<Rightarrow> bfs al queue' reachable'))"
  by pat_completeness auto
termination
  by (relation "measure (\<lambda>(al, q, r). 2 * card (neighbour_ids al - r) + length q)")
     (auto dest: bfs_step_decreases[OF _ sym])

definition is_connected :: "adjacency \<Rightarrow> int list \<Rightarrow> error + bool" where
  "is_connected al vs =
     (case vs of
        [] \<Rightarrow> Inl IndexError
      | root # _ \<Rightarrow>
          (case bfs al [root] {root} of
             Inl e \<Rightarrow> Inl e
           | Inr reachable \<Rightarrow> Inr (list_all (\<lambda>vertex. vertex \<in> reachable) vs)))"

section \<open>Cycle detection\<close>

text \<open>
  The nested function \<open>dfs(cur, ancestry)\<close> adds \<open>cur\<close> to the shared set \<open>seen\<close>,
  returns the closed walk \<open>[cur] + ancestry[0 : ancestry.index(cur) + 1]\<close> when \<open>cur\<close> is
  among its ancestors, and otherwise calls itself on every neighbour other than
  \<open>ancestry[0]\<close>, with \<open>[cur] + ancestry\<close>, returning the first result that is not
  \<open>None\<close>. The set \<open>seen\<close> is threaded through; \<open>dfs_neighbours\<close> is the
  \<open>for destination in graph_AL[cur]\<close> loop, run in the frame of its \<open>dfs\<close> call.

  \<open>dfs\<close> is a recursive Python function: every nested call takes an interpreter frame,
  and a call past the interpreter's recursion limit raises RecursionError before its
  body runs. The first argument is the number of nested \<open>dfs\<close> calls that are still
  allowed: at the first call this is \<open>sys.getrecursionlimit()\<close> (1000 unless the host
  changes it, and the source never does) less the frames already on the stack.
\<close>

definition cycle_of :: "int \<Rightarrow> int list \<Rightarrow> int list" where
  "cycle_of cur ancestry = cur # takeWhile (\<lambda>node. node \<noteq> cur) ancestry @ [cur]"

function dfs :: "nat \<Rightarrow> adjacency \<Rightarrow> int \<Rightarrow> int list \<Rightarrow> int set
    \<Rightarrow> error + (int list option \<times> int set)"
  and dfs_neighbours :: "nat \<Rightarrow> adjacency \<Rightarrow> int \<Rightarrow> int list \<Rightarrow> int list \<Rightarrow> int set
    \<Rightarrow> error + (int list option \<times> int set)"
where
  "dfs 0 al cur ancestry seen = Inl RecursionError"
| "dfs (Suc depth) al cur ancestry seen =
     (if cur \<in> set ancestry then Inr (Some (cycle_of cur ancestry), insert cur seen)
      else (case map_of al cur of
              None \<Rightarrow> Inl KeyError
            | Some nbrs \<Rightarrow>
                dfs_neighbours depth al cur ancestry (map fst nbrs) (insert cur seen)))"
| "dfs_neighbours depth al cur ancestry [] seen = Inr (None, seen)"
| "dfs_neighbours depth al cur ancestry (destination # ds) seen =
     (if ancestry = [] \<or> destination \<noteq> hd ancestry then
        (case dfs depth al destination (cur # ancestry) seen of
           Inl e \<Rightarrow> Inl e
         | Inr (Some cycle, seen') \<Rightarrow> Inr (Some cycle, seen')
         | Inr (None, seen') \<Rightarrow> dfs_neighbours depth al cur ancestry ds seen')
      else dfs_neighbours depth al cur ancestry ds seen)"
  by pat_completeness auto
termination
  by (relation "measures
        [\<lambda>x. case x of Inl (depth, al, cur, ancestry, seen) \<Rightarrow> 2 * depth
                     | Inr (depth, al, cur, ancestry, ds, seen) \<Rightarrow> 2 * depth + 1,
         \<lambda>x. case x of Inl _ \<Rightarrow> 0 | Inr (depth, al, cur, ancestry, ds, seen) \<Rightarrow> length ds]")
     auto

declare dfs.simps(2) [simp del]

fun has_cycle_roots :: "nat \<Rightarrow> adjacency \<Rightarrow> int list \<Rightarrow> int set \<Rightarrow> error + int list option"
where
  "has_cycle_roots depth al [] seen = Inr None"
| "has_cycle_roots depth al (root # roots) seen =
     (if root \<in> seen then has_cycle_roots depth al roots seen
      else (case dfs depth al root [] seen of
              Inl e \<Rightarrow> Inl e
            | Inr (Some cycle, seen') \<Rightarrow> Inr (Some cycle)
            | Inr (None, seen') \<Rightarrow> has_cycle_roots depth al roots seen'))"

definition has_cycle :: "nat \<Rightarrow> adjacency \<Rightarrow> int list \<Rightarrow> error + int list option" where
  "has_cycle depth al vs = has_cycle_roots depth al vs {}"

section \<open>Priority queue\<close>

text \<open>
  \<open>heapq\<close> keeps a binary heap inside a Python list: \<open>heappush\<close> adds an item and
  \<open>heappop\<close> removes and returns the least item in Python's tuple order (lexicographic,
  the order of \<open>HOL-Library.Product_Lexorder\<close>). Two items that compare equal are equal
  tuples, so what a pop returns depends on the items in the queue only; the embedding
  keeps the items in a list and takes out the least one. Both loops call \<open>heappop\<close>
  under \<open>len(pq) > 0\<close>, so the queue is given as head and tail.
\<close>

definition heappush :: "'a list \<Rightarrow> 'a \<Rightarrow> 'a list" where
  "heappush pq item = item # pq"

definition heap_min :: "'a::linorder \<Rightarrow> 'a list \<Rightarrow> 'a" where
  "heap_min x xs = fold min xs x"

definition heappop :: "'a::linorder \<Rightarrow> 'a list \<Rightarrow> 'a \<times> 'a list" where
  "heappop x xs = (heap_min x xs, remove1 (heap_min x xs) (x # xs))"

lemma heap_min_Min: "heap_min x xs = Min (set (x # xs))"
  by (simp only: heap_min_def Min.set_eq_fold)

lemma heap_min_in: "heap_min x xs \<in> set (x # xs)"
  unfolding heap_min_Min by (rule Min_in) auto

lemma heap_min_le: "y \<in> set (x # xs) \<Longrightarrow> heap_min x xs \<le> y"
  unfolding heap_min_Min by (rule Min_le) auto

lemma heappop_length: "heappop x xs = (m, pq') \<Longrightarrow> length pq' = length xs"
proof -
  have "length (remove1 (heap_min x xs) (x # xs)) = length (x # xs) - 1"
    using heap_min_in[of x xs] by (simp only: length_remove1 if_True)
  then have "length (snd (heappop x xs)) = length xs"
    by (simp only: heappop_def snd_conv) simp
  moreover assume "heappop x xs = (m, pq')"
  ultimately show ?thesis by simp
qed

section \<open>Shortest paths\<close>

text \<open>
  \<open>dist\<close> and \<open>pred\<close> are dicts read by key only: maps. \<open>pred[root]\<close> is
  \<open>None\<close>, so the values of \<open>pred\<close> are optional vertices. \<open>relax\<close> is the
  \<open>for destination in graph_AL[cur]\<close> loop; it reads \<open>dist[cur]\<close> anew for every
  neighbour, and a missing key raises KeyError. \<open>dist[root]\<close> starts as the int
  \<open>0\<close>, which Python compares and adds as the float \<open>0.0\<close>.
\<close>

type_synonym dist_map = "int \<rightharpoonup> pyfloat"
type_synonym pred_map = "int \<rightharpoonup> int option"

fun relax :: "int \<Rightarrow> (int \<times> int) list \<Rightarrow> dist_map \<times> pred_map \<times> (pyfloat \<times> int) list
    \<Rightarrow> error + dist_map \<times> pred_map \<times> (pyfloat \<times> int) list" where
  "relax cur [] (dist, pred, pq) = Inr (dist, pred, pq)"
| "relax cur ((destination, weight) # nbrs) (dist, pred, pq) =
     (case dist cur of
        None \<Rightarrow> Inl KeyError
      | Some dist_cur \<Rightarrow>
          (if (case dist destination of
                 None \<Rightarrow> True
               | Some d \<Rightarrow> add_weight weight dist_cur < d)
           then relax cur nbrs
                  (dist(destination \<mapsto> add_weight weight dist_cur),
                   pred(destination \<mapsto> Some cur),
                   heappush pq (add_weight weight dist_cur, destination))
           else relax cur nbrs (dist, pred, pq)))"

function dijkstra :: "adjacency \<Rightarrow> (pyfloat \<times> int) list \<Rightarrow> int set \<Rightarrow> dist_map \<Rightarrow> pred_map
    \<Rightarrow> error + dist_map \<times> pred_map" where
  "dijkstra al [] visited dist pred = Inr (dist, pred)"
| "dijkstra al (x # xs) visited dist pred =
     (case heappop x xs of
        ((_, cur), pq') \<Rightarrow>
          (if cur \<in> visited then dijkstra al pq' visited dist pred
           else (case map_of al cur of
                   None \<Rightarrow> Inl KeyError
                 | Some nbrs \<Rightarrow>
                     (case relax cur nbrs (dist, pred, pq') of
                        Inl e \<Rightarrow> Inl e
                      | Inr (dist', pred', pq'') \<Rightarrow>
                          dijkstra al pq'' (insert cur visited) dist' pred'))))"
  by pat_completeness auto

lemma unvisited_less:
  "map_of al cur = Some nbrs \<Longrightarrow> cur \<notin> visited \<Longrightarrow>
   card (fst ` set al - insert cur visited) < card (fst ` set al - visited)"
proof -
  assume a: "map_of al cur = Some nbrs" "cur \<notin> visited"
  then have "cur \<in> fst ` set al" by (force dest: map_of_SomeD)
  with a have "cur \<in> fst ` set al - visited" by simp
  then have "card (fst ` set al - visited - {cur}) < card (fst ` set al - visited)"
    by (intro card_Diff1_less) auto
  moreover have "fst ` set al - insert cur visited = (fst ` set al - visited) - {cur}"
    by auto
  ultimately show ?thesis by simp
qed

termination dijkstra
  by (relation "measures
        [\<lambda>(al, pq, visited, dist, pred). card (fst ` set al - visited),
         \<lambda>(al, pq, visited, dist, pred). length pq]")
     (auto simp: unvisited_less dest: heappop_length[OF sym])

text \<open>
  The backtrace \<open>while cur != None: path.insert(0, cur); cur = pred[cur]\<close> has no bound
  of its own: it runs for ever on a cyclic \<open>pred\<close>. Not returning is the value \<open>None\<close>.
\<close>

partial_function (option) backtrace ::
    "pred_map \<Rightarrow> int option \<Rightarrow> int list \<Rightarrow> (error + int list) option" where
  "backtrace pred cur path =
     (case cur of
        None \<Rightarrow> Some (Inr path)
      | Some c \<Rightarrow>
          (case pred c of
             None \<Rightarrow> Some (Inl KeyError)
           | Some p \<Rightarrow> backtrace pred p (c # path)))"

lemma backtrace_code [code]:
  "backtrace pred cur path =
     (case cur of
        None \<Rightarrow> Some (Inr path)
      | Some c \<Rightarrow>
          (case pred c of
             None \<Rightarrow> Some (Inl KeyError)
           | Some p \<Rightarrow> backtrace pred p (c # path)))"
  by (rule backtrace.simps)

text \<open>
  The first collecting loop stores \<open>[]\<close> for a vertex that is not in \<open>pred\<close> and the
  backtraced path otherwise; the second pairs each path with \<open>dist[vertex]\<close>, or stores
  \<open>[-1, None]\<close> when the vertex is not in \<open>dist\<close>. The result dict is listed in the
  order of the declared vertices (for a vertex id declared twice Python would wrap the
  entry a second time; unique ids are part of a well-formed description).
\<close>

fun collect_paths :: "pred_map \<Rightarrow> int list \<Rightarrow> (int \<times> int list) list
    \<Rightarrow> (error + (int \<times> int list) list) option" where
  "collect_paths pred [] shortest_paths = Some (Inr shortest_paths)"
| "collect_paths pred (vertex # vs) shortest_paths =
     (case pred vertex of
        None \<Rightarrow> collect_paths pred vs (AList.update vertex [] shortest_paths)
      | Some _ \<Rightarrow>
          (case backtrace pred (Some vertex) [] of
             None \<Rightarrow> None
           | Some (Inl e) \<Rightarrow> Some (Inl e)
           | Some (Inr path) \<Rightarrow>
               collect_paths pred vs (AList.update vertex path shortest_paths)))"

definition with_distances :: "dist_map \<Rightarrow> int list \<Rightarrow> (int \<times> int list) list
    \<Rightarrow> (int \<times> pyfloat \<times> int list option) list" where
  "with_distances dist vs shortest_paths =
     map (\<lambda>vertex. (vertex,
            (case dist vertex of
               Some d \<Rightarrow> (d, map_of shortest_paths vertex)
             | None \<Rightarrow> (Finite (-1), None)))) vs"

definition shortest_paths :: "adjacency \<Rightarrow> int \<Rightarrow> int list
    \<Rightarrow> (error + (int \<times> pyfloat \<times> int list option) list) option" where
  "shortest_paths al root vs =
     (case dijkstra al [(Finite 0, root)] {} [root \<mapsto> Finite 0] [root \<mapsto> None] of
        Inl e \<Rightarrow> Some (Inl e)
      | Inr (dist, pred) \<Rightarrow>
          (case collect_paths pred vs [] of
             None \<Rightarrow> None
           | Some (Inl e) \<Rightarrow> Some (Inl e)
           | Some (Inr paths) \<Rightarrow> Some (Inr (with_distances dist vs paths))))"

section \<open>Minimum spanning tree\<close>

text \<open>
  Queue items are \<open>(weight, start, end)\<close>. \<open>push_fringe\<close> is the loop
  \<open>for destination in graph_AL[v]: if destination not in mst_vertices: heappush(...)\<close>,
  run after \<open>v\<close> has been appended to \<open>mst_vertices\<close>; the first loop over the
  neighbours of the root pushes every one of them (\<open>push_all\<close>).
\<close>

fun push_all :: "int \<Rightarrow> (int \<times> int) list \<Rightarrow> (int \<times> int \<times> int) list
    \<Rightarrow> (int \<times> int \<times> int) list" where
  "push_all v [] pq = pq"
| "push_all v ((destination, weight) # nbrs) pq =
     push_all v nbrs (heappush pq (weight, v, destination))"

fun push_fringe :: "int \<Rightarrow> (int \<times> int) list \<Rightarrow> int list \<Rightarrow> (int \<times> int \<times> int) list
    \<Rightarrow> (int \<times> int \<times> int) list" where
  "push_fringe v [] mst_vertices pq = pq"
| "push_fringe v ((destination, weight) # nbrs) mst_vertices pq =
     (if destination \<notin> set mst_vertices
      then push_fringe v nbrs mst_vertices (heappush pq (weight, v, destination))
      else push_fringe v nbrs mst_vertices pq)"

function prim :: "adjacency \<Rightarrow> (int \<times> int \<times> int) list \<Rightarrow> (int \<times> int \<times> int) list \<Rightarrow> int list
    \<Rightarrow> error + (int \<times> int \<times> int) list" where
  "prim al [] mst_edges mst_vertices = Inr mst_edges"
| "prim al (x # xs) mst_edges mst_vertices =
     (case heappop x xs of
        ((weight, a, b), pq') \<Rightarrow>
          (if a \<in> set mst_vertices \<and> b \<in> set mst_vertices
           then prim al pq' mst_edges mst_vertices
           else if a \<in> set mst_vertices
           then (case map_of al b of
                   None \<Rightarrow> Inl KeyError
                 | Some nbrs \<Rightarrow>
                     prim al (push_fringe b nbrs (mst_vertices @ [b]) pq')
                       (mst_edges @ [(weight, a, b)]) (mst_vertices @ [b]))
           else (case map_of al a of
                   None \<Rightarrow> Inl KeyError
                 | Some nbrs \<Rightarrow>
                     prim al (push_fringe a nbrs (mst_vertices @ [a]) pq')
                       (mst_edges @ [(weight, a, b)]) (mst_vertices @ [a]))))"
  by pat_completeness auto
termination
  by (relation "measures
        [\<lambda>(al, pq, mst_edges, mst_vertices). card (fst ` set al - set mst_vertices),
         \<lambda>(al, pq, mst_edges, mst_vertices). length pq]")
     (auto simp: unvisited_less dest: heappop_length[OF sym])

definition mst :: "adjacency \<Rightarrow> int list \<Rightarrow> error + (int \<times> int \<times> int) list option" where
  "mst al vs =
     (case vs of
        [] \<Rightarrow> Inl IndexError
      | root # _ \<Rightarrow>
          (case bfs al [root] {root} of
             Inl e \<Rightarrow> Inl e
           | Inr reachable \<Rightarrow>
               (if \<not> list_all (\<lambda>vertex. vertex \<in> reachable) vs then Inr None
                else (case map_of al root of
                        None \<Rightarrow> Inl KeyError
                      | Some nbrs \<Rightarrow>
                          (case prim al (push_all root nbrs []) [] [root] of
                             Inl e \<Rightarrow> Inl e
                           | Inr mst_edges \<Rightarrow>
                               Inr (Some (map (\<lambda>(weight, a, b). (a, b, weight)) mst_edges)))))))"

section \<open>The analysis entry point\<close>

text \<open>
  \<open>analyze_graph(type, root, graph_data)\<close> builds the adjacency model first and then
  matches on \<open>type\<close>. \<open>root\<close> may be absent (\<open>None\<close>); \<open>shortest_paths\<close> and
  \<open>reachable_nodes\<close> then look \<open>graph_AL[None]\<close> up at their first step, which raises
  KeyError since every key of \<open>graph_AL\<close> is an int. The outer \<open>option\<close> is \<open>None\<close>
  when the call does not return.

  The first argument belongs to the interpreter, not to the call: \<open>depth\<close> is the
  number of nested calls of \<open>dfs\<close> that fit under the recursion limit when
  \<open>analyze_graph\<close> runs (at most 1000 with the default limit). Only \<open>has_cycle\<close>
  recurses.
\<close>

definition analyze_graph ::
    "nat \<Rightarrow> string \<Rightarrow> int option \<Rightarrow> graph_data \<Rightarrow> (error + analysis_result) option"
where
  "analyze_graph depth type root g =
     (case build_AL g of
        Inl e \<Rightarrow> Some (Inl e)
      | Inr graph_AL \<Rightarrow>
          (if type = ''is_connected'' then
             (case is_connected graph_AL (vertices g) of
                Inl e \<Rightarrow> Some (Inl e)
              | Inr b \<Rightarrow> Some (Inr (IsConnected b)))
           else if type = ''has_cycle'' then
             (case has_cycle depth graph_AL (vertices g) of
                Inl e \<Rightarrow> Some (Inl e)
              | Inr c \<Rightarrow> Some (Inr (HasCycle c)))
           else if type = ''shortest_paths'' then
             (case root of
                None \<Rightarrow> Some (Inl KeyError)
              | Some r \<Rightarrow>
                  (case shortest_paths graph_AL r (vertices g) of
                     None \<Rightarrow> None
                   | Some (Inl e) \<Rightarrow> Some (Inl e)
                   | Some (Inr paths) \<Rightarrow> Some (Inr (ShortestPaths r paths))))
           else if type = ''reachable_nodes'' then
             (case root of
                None \<Rightarrow> Some (Inl KeyError)
              | Some r \<Rightarrow>
                  (case bfs graph_AL [r] {r} of
                     Inl e \<Rightarrow> Some (Inl e)
                   | Inr reachable \<Rightarrow> Some (Inr (ReachableNodes r reachable))))
           else if type = ''mst'' then
             (case mst graph_AL (vertices g) of
                Inl e \<Rightarrow> Some (Inl e)
              | Inr t \<Rightarrow> Some (Inr (Mst t)))
           else Some (Inl (Exception (''analysis type '' @ type @ '' is invalid'')))))"

section \<open>Random graph generation\<close>

text \<open>
  The generator draws from Python's global \<open>random\<close> module. The randomness source is
  an infinite sequence of integers, consumed from the front: \<open>random.randint(a, b)\<close>
  maps the next one into \<open>a..b\<close>, so that every outcome of every draw is the behaviour
  on some sequence, and raises ValueError when the range is empty (\<open>b < a\<close>), as the
  library does.
\<close>

type_synonym rng = "nat \<Rightarrow> int"

definition randint :: "int \<Rightarrow> int \<Rightarrow> rng \<Rightarrow> error + int \<times> rng" where
  "randint a b rnd =
     (if b < a then Inl ValueError
      else Inr (a + rnd 0 mod (b - a + 1), \<lambda>n. rnd (Suc n)))"

lemma randint_range: "randint a b rnd = Inr (x, rnd') \<Longrightarrow> a \<le> x \<and> x \<le> b"
proof -
  assume r: "randint a b rnd = Inr (x, rnd')"
  then have ab: "a \<le> b" and x: "x = a + rnd 0 mod (b - a + 1)"
    by (auto simp: randint_def split: if_splits)
  from ab have "0 < b - a + 1" by simp
  from pos_mod_sign[OF this, of "rnd 0"] pos_mod_bound[OF this, of "rnd 0"] x
  show ?thesis by simp
qed

datatype validation_error =
    InvalidType string
  | VertexCountNotPositive int
  | EdgeCountNegative int
  | EdgesWithoutVertices

text \<open>
  \<open>validate_parameters\<close> returns \<open>None\<close> on success and a 400 response otherwise; the
  response is represented by the constraint its message names.
\<close>

definition validate_parameters :: "string \<Rightarrow> int \<Rightarrow> int \<Rightarrow> validation_error option" where
  "validate_parameters type n_vertices n_edges =
     (if type \<notin> set [''any'', ''complete'', ''connected'', ''acyclic'', ''tree'', ''bipartite'']
      then Some (InvalidType type)
      else if n_vertices \<noteq> -1 \<and> n_vertices \<le> 0 then Some (VertexCountNotPositive n_vertices)
      else if n_edges \<noteq> -1 \<and> n_edges < 0 then Some (EdgeCountNegative n_edges)
      else if n_edges \<noteq> -1 \<and> n_vertices = -1 then Some EdgesWithoutVertices
      else None)"

datatype generation_result = Graph graph_data | ErrorRecord string

definition illegal :: generation_result where
  "illegal = ErrorRecord ''number of vertices and edges is illegal''"

text \<open>\<open>range(n)\<close> and the pairs \<open>start < end\<close> of the two nested \<open>range\<close> loops.\<close>

definition range :: "int \<Rightarrow> int list" where
  "range n = [0..n - 1]"

definition all_pairs :: "int \<Rightarrow> (int \<times> int) list" where
  "all_pairs n = concat (map (\<lambda>start. map (\<lambda>end. (start, end)) [start + 1..n - 1]) (range n))"

fun random_weights :: "(int \<times> int) list \<Rightarrow> rng \<Rightarrow> error + (int \<times> int \<times> int) list \<times> rng" where
  "random_weights [] rnd = Inr ([], rnd)"
| "random_weights ((a, b) # ps) rnd =
     (case randint 1 100 rnd of
        Inl e \<Rightarrow> Inl e
      | Inr (w, rnd') \<Rightarrow>
          (case random_weights ps rnd' of
             Inl e \<Rightarrow> Inl e
           | Inr (es, rnd'') \<Rightarrow> Inr ((a, b, w) # es, rnd'')))"

text \<open>\<open>edges.pop(i)\<close> for an index \<open>0 \<le> i < len(edges)\<close>, which is what \<open>randint\<close> gives.\<close>

definition pop :: "'a list \<Rightarrow> int \<Rightarrow> 'a list" where
  "pop xs i = take (nat i) xs @ drop (Suc (nat i)) xs"

lemma length_pop: "0 \<le> i \<Longrightarrow> i < int (length xs) \<Longrightarrow> length (pop xs i) < length xs"
  by (auto simp: pop_def)

function delete_random :: "int \<Rightarrow> (int \<times> int \<times> int) list \<Rightarrow> rng
    \<Rightarrow> error + (int \<times> int \<times> int) list \<times> rng" where
  "delete_random num_edges es rnd =
     (if int (length es) > num_edges then
        (case randint 0 (int (length es) - 1) rnd of
           Inl e \<Rightarrow> Inl e
         | Inr (rand_edge, rnd') \<Rightarrow> delete_random num_edges (pop es rand_edge) rnd')
      else Inr (es, rnd))"
  by pat_completeness auto
termination
  by (relation "measure (\<lambda>(num_edges, es, rnd). length es)")
     (auto dest!: randint_range intro!: length_pop)

declare delete_random.simps [simp del]

text \<open>
  The random-attach loop of \<open>tree\<close> and of each spore of \<open>acyclic\<close>:
  \<open>for i in range(lo, hi): edges.append([randint(offset, i - 1), i, randint(1, 100)])\<close>.
\<close>

fun attach :: "int list \<Rightarrow> int \<Rightarrow> (int \<times> int \<times> int) list \<Rightarrow> rng
    \<Rightarrow> error + (int \<times> int \<times> int) list \<times> rng" where
  "attach [] offset es rnd = Inr (es, rnd)"
| "attach (i # is) offset es rnd =
     (case randint offset (i - 1) rnd of
        Inl e \<Rightarrow> Inl e
      | Inr (other, rnd') \<Rightarrow>
          (case randint 1 100 rnd' of
             Inl e \<Rightarrow> Inl e
           | Inr (w, rnd'') \<Rightarrow> attach is offset (es @ [(other, i, w)]) rnd''))"

text \<open>The loop over the spores of \<open>acyclic\<close>, with its running \<open>offset\<close>.\<close>

fun spores :: "int list \<Rightarrow> int \<Rightarrow> int \<Rightarrow> int \<Rightarrow> (int \<times> int \<times> int) list \<Rightarrow> rng
    \<Rightarrow> error + (int \<times> int \<times> int) list \<times> rng" where
  "spores [] num_vertices spore_count offset es rnd = Inr (es, rnd)"
| "spores (spore # ss) num_vertices spore_count offset es rnd =
     (let num_spore_vertices =
            (if spore < num_vertices mod spore_count then num_vertices div spore_count + 1
             else num_vertices div spore_count)
      in (case attach [offset + 1..offset + num_spore_vertices - 1] offset es rnd of
            Inl e \<Rightarrow> Inl e
          | Inr (es', rnd') \<Rightarrow>
              spores ss num_vertices spore_count (offset + num_spore_vertices) es' rnd'))"

text \<open>
  The spanning-tree phase of \<open>connected\<close>: vertex \<open>i\<close> picks an earlier vertex, the
  first edge \<open>[other, i, w]\<close> of \<open>remaining_edges\<close> is moved to \<open>edges\<close>, and an
  exception is raised when there is none.
\<close>

fun start_tree :: "int list \<Rightarrow> (int \<times> int \<times> int) list \<Rightarrow> (int \<times> int \<times> int) list \<Rightarrow> rng
    \<Rightarrow> error + (int \<times> int \<times> int) list \<times> (int \<times> int \<times> int) list \<times> rng" where
  "start_tree [] es remaining_edges rnd = Inr (es, remaining_edges, rnd)"
| "start_tree (i # is) es remaining_edges rnd =
     (case randint 0 (i - 1) rnd of
        Inl e \<Rightarrow> Inl e
      | Inr (other, rnd') \<Rightarrow>
          (case find (\<lambda>(a, b, w). a = other \<and> b = i) remaining_edges of
             None \<Rightarrow>
               Inl (Exception ''could not find selected edge when building connected graph'')
           | Some selected_edge \<Rightarrow>
               start_tree is (es @ [selected_edge])
                 (remove1 selected_edge remaining_edges) rnd'))"

text \<open>The second phase of \<open>connected\<close>: move random remaining edges until the target.\<close>

function add_remaining :: "int \<Rightarrow> (int \<times> int \<times> int) list \<Rightarrow> (int \<times> int \<times> int) list \<Rightarrow> rng
    \<Rightarrow> error + (int \<times> int \<times> int) list \<times> rng" where
  "add_remaining num_edges es remaining_edges rnd =
     (if int (length es) < num_edges then
        (case randint 0 (int (length remaining_edges) - 1) rnd of
           Inl e \<Rightarrow> Inl e
         | Inr (rand_edge, rnd') \<Rightarrow>
             (let selected_edge = remaining_edges ! nat rand_edge
              in add_remaining num_edges (es @ [selected_edge])
                   (remove1 selected_edge remaining_edges) rnd'))
      else Inr (es, rnd))"
  by pat_completeness auto
termination
  by (relation "measure (\<lambda>(num_edges, es, remaining_edges, rnd).
                  nat (num_edges - int (length es)))") auto

declare add_remaining.simps [simp del]

text \<open>Resolving the "unspecified" sentinel \<open>-1\<close> of the two counts.\<close>

definition default_vertices :: "int \<Rightarrow> rng \<Rightarrow> error + int \<times> rng" where
  "default_vertices num_vertices rnd =
     (if num_vertices = -1 then randint 5 10 rnd else Inr (num_vertices, rnd))"

definition default_edges :: "int \<Rightarrow> int \<Rightarrow> int \<Rightarrow> rng \<Rightarrow> error + int \<times> rng" where
  "default_edges num_edges lo hi rnd =
     (if num_edges = -1 then randint lo hi rnd else Inr (num_edges, rnd))"

definition make_random_graph :: "string \<Rightarrow> int \<Rightarrow> int \<Rightarrow> rng \<Rightarrow> error + generation_result" where
  "make_random_graph type num_vertices0 num_edges0 rnd0 =
     (if type = ''any'' then
        (case default_vertices num_vertices0 rnd0 of Inl e \<Rightarrow> Inl e | Inr (num_vertices, rnd1) \<Rightarrow>
         (case default_edges num_edges0 5 (num_vertices * (num_vertices - 1) div 2) rnd1 of
            Inl e \<Rightarrow> Inl e | Inr (num_edges, rnd2) \<Rightarrow>
          (if num_edges > num_vertices * (num_vertices - 1) div 2 then Inr illegal
           else (case random_weights (all_pairs num_vertices) rnd2 of
                   Inl e \<Rightarrow> Inl e | Inr (es, rnd3) \<Rightarrow>
                 (case delete_random num_edges es rnd3 of
                    Inl e \<Rightarrow> Inl e | Inr (es', rnd4) \<Rightarrow>
                  Inr (Graph \<lparr>vertices = range num_vertices, edges = es'\<rparr>))))))
      else if type = ''complete'' then
        (case default_vertices num_vertices0 rnd0 of Inl e \<Rightarrow> Inl e | Inr (num_vertices, rnd1) \<Rightarrow>
         (let num_edges = (if num_edges0 = -1 then num_vertices * (num_vertices - 1) div 2
                           else num_edges0)
          in if num_edges \<noteq> num_vertices * (num_vertices - 1) div 2 then Inr illegal
             else (case random_weights (all_pairs num_vertices) rnd1 of
                     Inl e \<Rightarrow> Inl e | Inr (es, rnd2) \<Rightarrow>
                   Inr (Graph \<lparr>vertices = range num_vertices, edges = es\<rparr>))))
      else if type = ''connected'' then
        (case default_vertices num_vertices0 rnd0 of Inl e \<Rightarrow> Inl e | Inr (num_vertices, rnd1) \<Rightarrow>
         (case default_edges num_edges0 (num_vertices - 1)
                 (num_vertices * (num_vertices - 1) div 2) rnd1 of
            Inl e \<Rightarrow> Inl e | Inr (num_edges, rnd2) \<Rightarrow>
          (if num_edges > num_vertices * (num_vertices - 1) div 2 \<or> num_edges < num_vertices - 1
           then Inr illegal
           else (case random_weights (all_pairs num_vertices) rnd2 of
                   Inl e \<Rightarrow> Inl e | Inr (remaining_edges, rnd3) \<Rightarrow>
                 (case start_tree [1..num_vertices - 1] [] remaining_edges rnd3 of
                    Inl e \<Rightarrow> Inl e | Inr (es, remaining_edges', rnd4) \<Rightarrow>
                  (case add_remaining num_edges es remaining_edges' rnd4 of
                     Inl e \<Rightarrow> Inl e | Inr (es', rnd5) \<Rightarrow>
                   Inr (Graph \<lparr>vertices = range num_vertices, edges = es'\<rparr>)))))))
      else if type = ''acyclic'' then
        (case default_vertices num_vertices0 rnd0 of Inl e \<Rightarrow> Inl e | Inr (num_vertices, rnd1) \<Rightarrow>
         (case default_edges num_edges0 4 (num_vertices - 1) rnd1 of
            Inl e \<Rightarrow> Inl e | Inr (num_edges, rnd2) \<Rightarrow>
          (if num_edges > num_vertices - 1 then Inr illegal
           else (let spore_count = num_vertices - num_edges
                 in (case spores (range spore_count) num_vertices spore_count 0 [] rnd2 of
                       Inl e \<Rightarrow> Inl e | Inr (es, rnd3) \<Rightarrow>
                     Inr (Graph \<lparr>vertices = range num_vertices, edges = es\<rparr>))))))
      else if type = ''tree'' then
        (case default_vertices num_vertices0 rnd0 of Inl e \<Rightarrow> Inl e | Inr (num_vertices, rnd1) \<Rightarrow>
         (let num_edges = (if num_edges0 = -1 then num_vertices - 1 else num_edges0)
          in if num_edges \<noteq> num_vertices - 1 then Inr illegal
             else (case attach [1..num_vertices - 1] 0 [] rnd1 of
                     Inl e \<Rightarrow> Inl e | Inr (es, rnd2) \<Rightarrow>
                   Inr (Graph \<lparr>vertices = range num_vertices, edges = es\<rparr>))))
      else if type = ''bipartite'' then
        (case default_vertices num_vertices0 rnd0 of Inl e \<Rightarrow> Inl e | Inr (num_vertices, rnd1) \<Rightarrow>
         (case default_edges num_edges0 4 (num_vertices * num_vertices div 4) rnd1 of
            Inl e \<Rightarrow> Inl e | Inr (num_edges, rnd2) \<Rightarrow>
          (if num_edges > num_vertices * num_vertices div 4 then Inr illegal
           else (let group_A = filter (\<lambda>i. i < num_vertices div 2) (range num_vertices);
                     group_B = filter (\<lambda>i. \<not> i < num_vertices div 2) (range num_vertices)
                 in (case random_weights (List.product group_A group_B) rnd2 of
                       Inl e \<Rightarrow> Inl e | Inr (es, rnd3) \<Rightarrow>
                     (case delete_random num_edges es rnd3 of
                        Inl e \<Rightarrow> Inl e | Inr (es', rnd4) \<Rightarrow>
                      Inr (Graph \<lparr>vertices = range num_vertices, edges = es'\<rparr>)))))))
      else Inr (ErrorRecord (''graph type '' @ type @ '' is invalid'')))"

section \<open>Graphs and descriptions\<close>

text \<open>
  A description is well formed when its vertex ids are unique and non-negative and every
  edge joins declared vertices. \<open>weight_of\<close> reads \<open>graph_AL[u][v]\<close>; \<open>adj\<close> is
  the adjacency of the model and \<open>edge_rel\<close> the adjacency of the description, both
  undirected. \<open>reachable_from g r\<close> is what can be reached from \<open>r\<close> along edges.
  \<open>float_weights g\<close>: every weight of the description converts to a float, that is,
  \<open>float(w)\<close> does not raise.
\<close>

definition weight_of :: "adjacency \<Rightarrow> int \<Rightarrow> int \<Rightarrow> int option" where
  "weight_of al u v = (case map_of al u of None \<Rightarrow> None | Some nbrs \<Rightarrow> map_of nbrs v)"

definition adj :: "adjacency \<Rightarrow> (int \<times> int) set" where
  "adj al = {(u, v). weight_of al u v \<noteq> None}"

definition well_formed :: "graph_data \<Rightarrow> bool" where
  "well_formed g \<longleftrightarrow>
     distinct (vertices g) \<and> (\<forall>v \<in> set (vertices g). 0 \<le> v) \<and>
     (\<forall>(a, b, w) \<in> set (edges g). a \<in> set (vertices g) \<and> b \<in> set (vertices g))"

definition float_weights :: "graph_data \<Rightarrow> bool" where
  "float_weights g \<longleftrightarrow> (\<forall>(a, b, w) \<in> set (edges g). \<bar>round_double w\<bar> < 2 ^ 1024)"

definition edge_rel :: "graph_data \<Rightarrow> (int \<times> int) set" where
  "edge_rel g = {(a, b). \<exists>w. (a, b, w) \<in> set (edges g) \<or> (b, a, w) \<in> set (edges g)}"

definition reachable_from :: "graph_data \<Rightarrow> int \<Rightarrow> int set" where
  "reachable_from g r = (edge_rel g)\<^sup>* `` {r}"

section \<open>The adjacency model of a well-formed description\<close>

lemma map_of_fold_init:
  "map_of (fold (\<lambda>v al. AList.update v [] al) vs al0) u =
     (if u \<in> set vs then Some [] else map_of al0 u)"
  by (induction vs arbitrary: al0) (auto simp: update_conv')

lemma map_of_init_AL: "map_of (init_AL vs) u = (if u \<in> set vs then Some [] else None)"
  by (simp add: init_AL_def map_of_fold_init)

lemma weight_of_init_AL: "weight_of (init_AL vs) u v = None"
  by (simp add: weight_of_def map_of_init_AL)

lemma add_edge_ok:
  assumes "a \<in> dom (map_of al)" "b \<in> dom (map_of al)" "py_float w0 = Inr w"
  shows "\<exists>al'. add_edge (a, b, w0) al = Inr al' \<and> dom (map_of al') = dom (map_of al) \<and>
           (\<forall>u v. weight_of al' u v =
              (if (u = a \<and> v = b) \<or> (u = b \<and> v = a) then Some w else weight_of al u v))"
proof -
  from assms obtain na where na: "map_of al a = Some na" by auto
  let ?al1 = "AList.update a (AList.update b w na) al"
  from assms have "b \<in> dom (map_of ?al1)" by (auto simp: update_conv')
  then obtain nb where nb: "map_of ?al1 b = Some nb" by auto
  let ?al2 = "AList.update b (AList.update a w nb) ?al1"
  have r: "add_edge (a, b, w0) al = Inr ?al2"
    using na nb assms(3) by (simp add: add_edge_def Let_def)
  have d: "dom (map_of ?al2) = dom (map_of al)"
    using assms by (auto simp: update_conv' split: if_splits)
  have w: "weight_of ?al2 u v =
              (if (u = a \<and> v = b) \<or> (u = b \<and> v = a) then Some w else weight_of al u v)" for u v
    using na nb by (auto simp: weight_of_def update_conv' split: if_splits option.splits)
  from r d w show ?thesis by blast
qed

lemma py_float_ok: "\<bar>round_double w\<bar> < 2 ^ 1024 \<Longrightarrow> py_float w = Inr (round_double w)"
  by (simp add: py_float_def)

lemma bit_length_bounds: "0 < n \<Longrightarrow> 2 ^ bit_length n \<le> 2 * n \<and> n < 2 ^ bit_length n"
proof (induction n rule: bit_length.induct)
  case (1 n)
  have b: "bit_length n = Suc (bit_length (n div 2))"
    using "1.prems" by (subst bit_length.simps) simp
  show ?case
  proof (cases "n = 1")
    case True
    have "bit_length (0 :: int) = 0" by (subst bit_length.simps) simp
    with b True show ?thesis by simp
  next
    case False
    with "1.prems" have pos: "0 < n div 2" by simp
    from "1.prems" have "\<not> n \<le> 0" by simp
    from "1.IH"[OF this pos]
    have ih: "2 ^ bit_length (n div 2) \<le> 2 * (n div 2)" "n div 2 < 2 ^ bit_length (n div 2)"
      by simp_all
    have "2 * (n div 2) \<le> n" "n \<le> 2 * (n div 2) + 1" by simp_all
    with ih show ?thesis unfolding b by simp
  qed
qed

lemma round_double_overflow:
  assumes n: "2 ^ 1024 \<le> n"
  shows "2 ^ 1024 \<le> round_double n"
proof -
  define L where "L = bit_length n"
  define e where "e = L - 53"
  define q where "q = n div 2 ^ e"
  define q' where "q' = (if 2 ^ (e - 1) < n mod 2 ^ e \<or> (n mod 2 ^ e = 2 ^ (e - 1) \<and> odd q)
                         then q + 1 else q)"
  have pos: "0 < n" using n by (rule less_le_trans[rotated]) simp
  from bit_length_bounds[OF pos] have b: "2 ^ L \<le> 2 * n" "n < 2 ^ L" by (simp_all add: L_def)
  from n b(2) have "(2 :: int) ^ 1024 < 2 ^ L" by simp
  then have L: "1024 < L" by (rule power_less_imp_less_exp[rotated]) simp
  then have Le: "L = Suc (52 + e)" by (simp add: e_def)
  from b(1) have low: "2 ^ 52 * 2 ^ e \<le> n" unfolding Le by (simp add: power_add)
  have "(2 :: int) ^ 52 = (2 ^ 52 * 2 ^ e) div 2 ^ e" by simp
  also have "\<dots> \<le> n div 2 ^ e" using low by (intro zdiv_mono1) simp_all
  finally have q: "2 ^ 52 \<le> q" by (simp add: q_def)
  have "q \<le> q'" by (simp add: q'_def)
  with q have "2 ^ 52 \<le> q'" by simp
  then have A: "2 ^ 52 * 2 ^ e \<le> q' * 2 ^ e" by (intro mult_right_mono) simp_all
  have "1024 \<le> 52 + e" using L by (simp add: e_def)
  then have "(2 :: int) ^ 1024 \<le> 2 ^ (52 + e)" by (intro power_increasing) simp_all
  also have "\<dots> = 2 ^ 52 * 2 ^ e" by (rule power_add)
  also note A
  finally have "2 ^ 1024 \<le> q' * 2 ^ e" .
  moreover have "\<not> \<bar>n\<bar> < 2 ^ 53" using n by simp
  then have "round_double n = q' * 2 ^ e"
    using pos by (simp add: round_double_def Let_def q'_def q_def e_def L_def)
  ultimately show ?thesis by (rule ord_le_eq_trans[OF _ sym])
qed

lemma py_float_overflow: "2 ^ 1024 \<le> n \<Longrightarrow> py_float n = Inl OverflowError"
  using round_double_overflow[of n] by (simp add: py_float_def)

lemma py_float_googol: "py_float (10 ^ 400) = Inl OverflowError"
  by (rule py_float_overflow) simp

lemma add_edges_ok:
  assumes "\<forall>(a, b, w) \<in> set es. a \<in> dom (map_of al) \<and> b \<in> dom (map_of al) \<and>
             \<bar>round_double w\<bar> < 2 ^ 1024"
  shows "\<exists>al'. add_edges es al = Inr al' \<and> dom (map_of al') = dom (map_of al) \<and>
           (\<forall>u v. weight_of al' u v \<noteq> None \<longleftrightarrow>
                     weight_of al u v \<noteq> None \<or> (\<exists>w. (u, v, w) \<in> set es \<or> (v, u, w) \<in> set es)) \<and>
           ((\<forall>u v. weight_of al u v = weight_of al v u) \<longrightarrow>
              (\<forall>u v. weight_of al' u v = weight_of al' v u)) \<and>
           (\<forall>u v x. weight_of al' u v = Some x \<longrightarrow>
                     weight_of al u v = Some x \<or>
                     (\<exists>w. x = round_double w \<and> ((u, v, w) \<in> set es \<or> (v, u, w) \<in> set es)))"
  using assms
proof (induction es arbitrary: al)
  case Nil
  then show ?case by simp
next
  case (Cons e es)
  obtain a b w where e: "e = (a, b, w)" by (cases e)
  from Cons.prems e have ab: "a \<in> dom (map_of al)" "b \<in> dom (map_of al)"
    and fw: "py_float w = Inr (round_double w)" by (auto intro: py_float_ok)
  from add_edge_ok[OF ab fw] obtain al1 where
    al1: "add_edge (a, b, w) al = Inr al1" "dom (map_of al1) = dom (map_of al)"
    and w1: "\<And>u v. weight_of al1 u v =
              (if (u = a \<and> v = b) \<or> (u = b \<and> v = a) then Some (round_double w)
               else weight_of al u v)"
    by blast
  from Cons.prems al1(2)
  have "\<forall>(a, b, w) \<in> set es. a \<in> dom (map_of al1) \<and> b \<in> dom (map_of al1) \<and>
             \<bar>round_double w\<bar> < 2 ^ 1024" by auto
  from Cons.IH[OF this] obtain al' where
    al': "add_edges es al1 = Inr al'" "dom (map_of al') = dom (map_of al1)"
    and adj': "\<And>u v. weight_of al' u v \<noteq> None \<longleftrightarrow>
                     weight_of al1 u v \<noteq> None \<or> (\<exists>w. (u, v, w) \<in> set es \<or> (v, u, w) \<in> set es)"
    and sym': "(\<forall>u v. weight_of al1 u v = weight_of al1 v u) \<Longrightarrow>
              (\<forall>u v. weight_of al' u v = weight_of al' v u)"
    and prov': "\<And>u v x. weight_of al' u v = Some x \<Longrightarrow>
                     weight_of al1 u v = Some x \<or>
                     (\<exists>w. x = round_double w \<and> ((u, v, w) \<in> set es \<or> (v, u, w) \<in> set es))"
    by blast
  have 1: "add_edges (e # es) al = Inr al'" using e al1(1) al'(1) by simp
  have 2: "dom (map_of al') = dom (map_of al)" using al'(2) al1(2) by simp
  have 3: "weight_of al' u v \<noteq> None \<longleftrightarrow>
             weight_of al u v \<noteq> None \<or> (\<exists>w. (u, v, w) \<in> set (e # es) \<or> (v, u, w) \<in> set (e # es))"
    for u v
    unfolding adj'[of u v] w1[of u v] e by auto
  have 4: "\<forall>u v. weight_of al' u v = weight_of al' v u"
    if "\<forall>u v. weight_of al u v = weight_of al v u"
  proof (rule sym')
    show "\<forall>u v. weight_of al1 u v = weight_of al1 v u"
      using that by (auto simp: w1)
  qed
  have 5: "weight_of al u v = Some x \<or>
        (\<exists>w. x = round_double w \<and> ((u, v, w) \<in> set (e # es) \<or> (v, u, w) \<in> set (e # es)))"
    if "weight_of al' u v = Some x" for u v x
  proof -
    from prov'[OF that] consider "weight_of al1 u v = Some x"
      | w' where "x = round_double w'" "(u, v, w') \<in> set es \<or> (v, u, w') \<in> set es" by blast
    then show ?thesis
    proof cases
      case 1
      show ?thesis
      proof (cases "(u = a \<and> v = b) \<or> (u = b \<and> v = a)")
        case True
        with 1 w1[of u v] have "x = round_double w" by simp
        with True e show ?thesis by auto
      next
        case False
        with 1 w1[of u v] show ?thesis by simp
      qed
    next
      case 2
      then show ?thesis by auto
    qed
  qed
  from 1 2 3 4 5 show ?case by blast
qed

lemma build_AL_ok:
  assumes "\<forall>(a, b, w) \<in> set (edges g). a \<in> set (vertices g) \<and> b \<in> set (vertices g)"
    and "float_weights g"
  shows "\<exists>al. build_AL g = Inr al \<and> dom (map_of al) = set (vertices g) \<and>
           adj al = edge_rel g \<and>
           (\<forall>u v. weight_of al u v = weight_of al v u) \<and>
           (\<forall>u v x. weight_of al u v = Some x \<longrightarrow>
              (\<exists>w. x = round_double w \<and>
                   ((u, v, w) \<in> set (edges g) \<or> (v, u, w) \<in> set (edges g))))"
proof -
  have d: "dom (map_of (init_AL (vertices g))) = set (vertices g)"
    by (auto simp: map_of_init_AL split: if_splits)
  with assms have "\<forall>(a, b, w) \<in> set (edges g).
      a \<in> dom (map_of (init_AL (vertices g))) \<and> b \<in> dom (map_of (init_AL (vertices g))) \<and>
      \<bar>round_double w\<bar> < 2 ^ 1024"
    by (auto simp: float_weights_def)
  from add_edges_ok[OF this] obtain al where
    "add_edges (edges g) (init_AL (vertices g)) = Inr al"
    "dom (map_of al) = dom (map_of (init_AL (vertices g)))"
    "\<And>u v. weight_of al u v \<noteq> None \<longleftrightarrow>
        weight_of (init_AL (vertices g)) u v \<noteq> None \<or>
        (\<exists>w. (u, v, w) \<in> set (edges g) \<or> (v, u, w) \<in> set (edges g))"
    "(\<forall>u v. weight_of (init_AL (vertices g)) u v = weight_of (init_AL (vertices g)) v u) \<longrightarrow>
              (\<forall>u v. weight_of al u v = weight_of al v u)"
    "\<And>u v x. weight_of al u v = Some x \<longrightarrow>
        weight_of (init_AL (vertices g)) u v = Some x \<or>
        (\<exists>w. x = round_double w \<and> ((u, v, w) \<in> set (edges g) \<or> (v, u, w) \<in> set (edges g)))"
    by blast
  then show ?thesis
    unfolding build_AL_def adj_def edge_rel_def
    by (simp add: weight_of_init_AL d)
qed

lemma nbrs_adj: "map_of al u = Some nbrs \<Longrightarrow> fst ` set nbrs = adj al `` {u}"
proof -
  assume "map_of al u = Some nbrs"
  then have "adj al `` {u} = dom (map_of nbrs)"
    by (auto simp: adj_def weight_of_def dom_def)
  then show ?thesis by (simp only: dom_map_of_conv_image_fst)
qed


section \<open>Connectivity\<close>

lemma bfs_visit_eq:
  "bfs_visit ds (r, q) = (r', q') \<Longrightarrow> r' = r \<union> set ds \<and> set q' = set q \<union> (set ds - r)"
  by (induction ds arbitrary: r q) (auto split: if_splits)

lemma bfs_closure:
  assumes "adj al `` UNIV \<subseteq> dom (map_of al)"
    and "set queue \<subseteq> reachable"
    and "reachable \<subseteq> dom (map_of al)"
    and "\<forall>u \<in> reachable - set queue. adj al `` {u} \<subseteq> reachable"
  shows "bfs al queue reachable = Inr ((adj al)\<^sup>* `` reachable)"
  using assms
proof (induction al queue reachable rule: bfs.induct)
  case (1 al reachable)
  then have "adj al `` reachable \<subseteq> reachable" by auto
  from Image_closed_trancl[OF this] show ?case by simp
next
  case (2 al cur queue reachable)
  from "2.prems" obtain nbrs where nbrs: "map_of al cur = Some nbrs" by auto
  obtain r' q' where v: "bfs_visit (map fst nbrs) (reachable, queue) = (r', q')"
    by (cases "bfs_visit (map fst nbrs) (reachable, queue)")
  from bfs_visit_eq[OF v] nbrs_adj[OF nbrs]
  have r': "r' = reachable \<union> adj al `` {cur}"
    and q': "set q' = set queue \<union> (adj al `` {cur} - reachable)" by auto
  have cur: "cur \<in> reachable" using "2.prems"(2) by simp
  have a: "set q' \<subseteq> r'" using "2.prems"(2) r' q' by auto
  have b: "r' \<subseteq> dom (map_of al)" using "2.prems"(1,3) r' by auto
  have c: "\<forall>u \<in> r' - set q'. adj al `` {u} \<subseteq> r'"
    using "2.prems"(4) r' q' by auto
  have "bfs al q' r' = Inr ((adj al)\<^sup>* `` r')"
    by (rule "2.IH"[OF nbrs v[symmetric] "2.prems"(1) a b c])
  moreover have "(adj al)\<^sup>* `` r' = (adj al)\<^sup>* `` reachable"
  proof
    show "(adj al)\<^sup>* `` r' \<subseteq> (adj al)\<^sup>* `` reachable"
    proof
      fix x assume "x \<in> (adj al)\<^sup>* `` r'"
      then obtain y where y: "y \<in> r'" "(y, x) \<in> (adj al)\<^sup>*" by auto
      show "x \<in> (adj al)\<^sup>* `` reachable"
      proof (cases "y \<in> reachable")
        case True
        with y show ?thesis by auto
      next
        case False
        with y r' have "(cur, y) \<in> adj al" by auto
        from this y(2) have "(cur, x) \<in> (adj al)\<^sup>*" by (rule converse_rtrancl_into_rtrancl)
        with cur show ?thesis by auto
      qed
    qed
    show "(adj al)\<^sup>* `` reachable \<subseteq> (adj al)\<^sup>* `` r'" using r' by auto
  qed
  ultimately show ?case using nbrs v by simp
qed

lemma bfs_root:
  assumes "adj al `` UNIV \<subseteq> dom (map_of al)" "root \<in> dom (map_of al)"
  shows "bfs al [root] {root} = Inr ((adj al)\<^sup>* `` {root})"
  using bfs_closure[of al "[root]" "{root}"] assms by simp

lemma reachable_in_vertices:
  assumes "well_formed g" "r \<in> set (vertices g)"
  shows "reachable_from g r \<subseteq> set (vertices g)"
proof
  fix x assume "x \<in> reachable_from g r"
  then have "(r, x) \<in> (edge_rel g)\<^sup>*" by (simp add: reachable_from_def)
  then show "x \<in> set (vertices g)"
    using assms by induction (auto simp: well_formed_def edge_rel_def)
qed

lemma is_connected_correct:
  assumes wf: "well_formed g" and ne: "vertices g \<noteq> []" and fw: "float_weights g"
  shows "analyze_graph depth ''is_connected'' r g =
           Some (Inr (IsConnected (reachable_from g (hd (vertices g)) = set (vertices g))))"
proof -
  from wf have "\<forall>(a, b, w) \<in> set (edges g). a \<in> set (vertices g) \<and> b \<in> set (vertices g)"
    by (simp add: well_formed_def)
  from build_AL_ok[OF this fw] obtain al where
    al: "build_AL g = Inr al" "dom (map_of al) = set (vertices g)" "adj al = edge_rel g"
    by blast
  from ne obtain root rest where vs: "vertices g = root # rest" by (cases "vertices g") auto
  have sub: "adj al `` UNIV \<subseteq> dom (map_of al)"
    using wf al(2,3) by (auto simp: well_formed_def edge_rel_def)
  have "root \<in> dom (map_of al)" using al(2) vs by simp
  from bfs_root[OF sub this]
  have b: "bfs al [root] {root} = Inr (reachable_from g root)"
    by (simp add: al(3) reachable_from_def)
  have "reachable_from g root \<subseteq> set (vertices g)"
    using reachable_in_vertices[OF wf] vs by simp
  then have "list_all (\<lambda>vertex. vertex \<in> reachable_from g root) (vertices g)
               \<longleftrightarrow> reachable_from g root = set (vertices g)"
    by (auto simp: list_all_iff)
  then show ?thesis
    using al(1) b vs by (simp add: analyze_graph_def is_connected_def)
qed

text \<open>
  Claim C5 says that on every well-formed description with at least one declared vertex
  \<open>is_connected\<close> answers true exactly when every declared vertex is reachable from the
  first one. The weights are converted before the traversal starts: the description with
  the vertices 0, 1 and the single edge (0, 1, 10^400) is well formed, and the call
  raises OverflowError instead of answering.
\<close>

theorem is_connected_overflow:
  "well_formed \<lparr>vertices = [0, 1], edges = [(0, 1, 10 ^ 400)]\<rparr>
   \<and> vertices \<lparr>vertices = [0, 1], edges = [(0, 1, 10 ^ 400)]\<rparr> \<noteq> []
   \<and> analyze_graph 1000 ''is_connected'' None \<lparr>vertices = [0, 1], edges = [(0, 1, 10 ^ 400)]\<rparr>
       = Some (Inl OverflowError)"
proof -
  have "well_formed \<lparr>vertices = [0, 1], edges = [(0, 1, 10 ^ 400)]\<rparr>"
    by (simp add: well_formed_def del: power_numeral)
  moreover have "analyze_graph 1000 ''is_connected'' None
      \<lparr>vertices = [0, 1], edges = [(0, 1, 10 ^ 400)]\<rparr> = Some (Inl OverflowError)"
    by (simp add: analyze_graph_def build_AL_def add_edge_def py_float_googol
             del: power_numeral)
  ultimately show ?thesis by (simp del: power_numeral)
qed

text \<open>
  Claim C5, amended. For a well-formed description with at least one declared vertex and
  weights that all convert to a float, \<open>is_connected\<close> answers true exactly when the set
  of vertices reachable from the first declared vertex is the whole declared vertex set
  (whatever the recursion depth the interpreter has left); on the vertices 0, 1, 2 with
  no edge the answer is false.
\<close>

theorem is_connected_iff_all_reachable:
  "(\<forall>g r depth. well_formed g \<and> vertices g \<noteq> [] \<and> float_weights g \<longrightarrow>
      analyze_graph depth ''is_connected'' r g =
        Some (Inr (IsConnected (reachable_from g (hd (vertices g)) = set (vertices g)))))
   \<and> (\<forall>depth. analyze_graph depth ''is_connected'' None \<lparr>vertices = [0, 1, 2], edges = []\<rparr>
       = Some (Inr (IsConnected False)))"
proof
  show "\<forall>g r depth. well_formed g \<and> vertices g \<noteq> [] \<and> float_weights g \<longrightarrow>
      analyze_graph depth ''is_connected'' r g =
        Some (Inr (IsConnected (reachable_from g (hd (vertices g)) = set (vertices g))))"
    using is_connected_correct by blast
  have "analyze_graph depth ''is_connected'' None \<lparr>vertices = [0, 1, 2], edges = []\<rparr>
       = Some (Inr (IsConnected False))" for depth
    by (simp add: analyze_graph_def build_AL_def init_AL_def is_connected_def)
  then show "\<forall>depth. analyze_graph depth ''is_connected'' None
      \<lparr>vertices = [0, 1, 2], edges = []\<rparr> = Some (Inr (IsConnected False))" ..
qed

theorem is_connected_iff_all_reachable_witness:
  "well_formed \<lparr>vertices = [0, 1, 2], edges = [(0, 1, 5)]\<rparr>
   \<and> vertices \<lparr>vertices = [0, 1, 2], edges = [(0, 1, 5)]\<rparr> \<noteq> []
   \<and> float_weights \<lparr>vertices = [0, 1, 2], edges = [(0, 1, 5)]\<rparr>
   \<and> analyze_graph 1000 ''is_connected'' None \<lparr>vertices = [0, 1, 2], edges = [(0, 1, 5)]\<rparr> =
        Some (Inr (IsConnected
          (reachable_from \<lparr>vertices = [0, 1, 2], edges = [(0, 1, 5)]\<rparr> 0 = {0, 1, 2})))"
proof -
  have w: "well_formed \<lparr>vertices = [0, 1, 2], edges = [(0, 1, 5)]\<rparr>"
    by (simp add: well_formed_def)
  have f: "float_weights \<lparr>vertices = [0, 1, 2], edges = [(0, 1, 5)]\<rparr>"
    by (simp add: float_weights_def round_double_def)
  from is_connected_iff_all_reachable w f show ?thesis by fastforce
qed

text \<open>
  Claim C9. On a description with no vertex, \<open>is_connected\<close> and \<open>mst\<close> return no
  tagged result: the call raises. With no edge either (the only well-formed description
  without vertices) the exception is the IndexError of \<open>graph_data["vertices"][0]\<close>.
\<close>

theorem empty_vertices_raise:
  "vertices g = [] \<Longrightarrow> t = ''is_connected'' \<or> t = ''mst'' \<Longrightarrow>
     (\<exists>e. analyze_graph depth t r g = Some (Inl e)) \<and>
     (edges g = [] \<longrightarrow> analyze_graph depth t r g = Some (Inl IndexError))"
  by (auto simp: analyze_graph_def is_connected_def mst_def build_AL_def init_AL_def
           split: sum.splits)

theorem empty_vertices_raise_witness:
  "vertices \<lparr>vertices = [], edges = []\<rparr> = []
   \<and> analyze_graph 1000 ''mst'' None \<lparr>vertices = [], edges = []\<rparr> = Some (Inl IndexError)"
  using empty_vertices_raise[of "\<lparr>vertices = [], edges = []\<rparr>" "''mst''" 1000 None] by simp

section \<open>Shortest paths on the triangle\<close>

text \<open>
  Claim C8. On the vertices 0, 1, 2 with the edges (0,1,1), (1,2,2), (0,2,10),
  \<open>shortest_paths\<close> from root 0 reports vertex 2 at distance 3 along [0, 1, 2]
  (whatever the recursion depth the interpreter has left).
\<close>

theorem shortest_paths_triangle:
  "analyze_graph depth ''shortest_paths'' (Some 0)
     \<lparr>vertices = [0, 1, 2], edges = [(0, 1, 1), (1, 2, 2), (0, 2, 10)]\<rparr>
   = Some (Inr (ShortestPaths 0
       [(0, Finite 0, Some [0]), (1, Finite 1, Some [0, 1]), (2, Finite 3, Some [0, 1, 2])]))"
proof -
  have "analyze_graph 0 ''shortest_paths'' (Some 0)
     \<lparr>vertices = [0, 1, 2], edges = [(0, 1, 1), (1, 2, 2), (0, 2, 10)]\<rparr>
   = Some (Inr (ShortestPaths 0
       [(0, Finite 0, Some [0]), (1, Finite 1, Some [0, 1]), (2, Finite 3, Some [0, 1, 2])]))"
    by code_simp
  moreover have "analyze_graph depth ''shortest_paths'' r g
      = analyze_graph 0 ''shortest_paths'' r g" for r g
    by (simp add: analyze_graph_def split: sum.splits)
  ultimately show ?thesis by simp
qed

section \<open>Generation requests that pass validation\<close>

text \<open>
  Claim C3 expects a graph or an error record for every validated request. The request
  \<open>any\<close> with 3 vertices and an unspecified edge count passes \<open>validate_parameters\<close>,
  and \<open>make_random_graph\<close> then draws \<open>random.randint(5, 3)\<close> for the edge count:
  the call raises ValueError, whatever the randomness source holds.
\<close>

theorem any_three_vertices_raises:
  "validate_parameters ''any'' 3 (-1) = None
   \<and> (\<forall>rnd. make_random_graph ''any'' 3 (-1) rnd = Inl ValueError)"
  by (simp add: validate_parameters_def make_random_graph_def default_vertices_def
        default_edges_def randint_def)

section \<open>Generated graphs\<close>

text \<open>
  An edge is a triple \<open>[start, end, weight]\<close>; \<open>child\<close> is its second endpoint, the
  vertex that attaches itself in the random-attach loops. \<open>edges_within V\<close> says that
  every edge runs from a smaller to a larger vertex of \<open>0..V-1\<close>.
\<close>

definition child :: "int \<times> int \<times> int \<Rightarrow> int" where
  "child e = fst (snd e)"

lemma child_simp [simp]: "child (p, i, w) = i"
  by (simp add: child_def)

definition edges_within :: "int \<Rightarrow> (int \<times> int \<times> int) list \<Rightarrow> bool" where
  "edges_within V es \<longleftrightarrow> (\<forall>e \<in> set es. 0 \<le> fst e \<and> fst e < child e \<and> child e < V)"

lemma random_weights_pairs:
  "random_weights ps rnd = Inr (es, rnd') \<Longrightarrow> map (\<lambda>(a, b, w). (a, b)) es = ps"
  by (induction ps arbitrary: rnd es rnd')
     (auto split: sum.splits prod.splits)

lemma set_pop: "set (pop xs i) \<subseteq> set xs"
  by (auto simp: pop_def dest: in_set_takeD in_set_dropD)

lemma delete_random_subset:
  "delete_random n es rnd = Inr (es', rnd') \<Longrightarrow> set es' \<subseteq> set es"
proof (induction n es rnd rule: delete_random.induct)
  case (1 n es rnd)
  show ?case
  proof (cases "int (length es) > n")
    case True
    with "1.prems" obtain i rnd1 where
      r: "randint 0 (int (length es) - 1) rnd = Inr (i, rnd1)"
      and d: "delete_random n (pop es i) rnd1 = Inr (es', rnd')"
      by (subst (asm) delete_random.simps) (auto split: sum.splits)
    from "1.IH"[OF True r refl d] set_pop[of es i] show ?thesis by auto
  next
    case False
    with "1.prems" show ?thesis by (subst (asm) delete_random.simps) auto
  qed
qed

lemma all_pairs_bounds: "(a, b) \<in> set (all_pairs n) \<Longrightarrow> 0 \<le> a \<and> a < b \<and> b < n"
  by (auto simp: all_pairs_def range_def)

lemma attach_edges:
  "attach is offset es rnd = Inr (es', rnd') \<Longrightarrow>
   \<exists>new. es' = es @ new \<and> map child new = is \<and>
         (\<forall>e \<in> set new. offset \<le> fst e \<and> fst e < child e)"
proof (induction "is" arbitrary: es rnd)
  case Nil
  then show ?case by simp
next
  case (Cons i "is")
  from Cons.prems obtain other rnd1 w rnd2 where
    r1: "randint offset (i - 1) rnd = Inr (other, rnd1)"
    and r2: "randint 1 100 rnd1 = Inr (w, rnd2)"
    and a: "attach is offset (es @ [(other, i, w)]) rnd2 = Inr (es', rnd')"
    by (auto split: sum.splits)
  from Cons.IH[OF a] obtain new where
    new: "es' = (es @ [(other, i, w)]) @ new" "map child new = is"
      "\<forall>e \<in> set new. offset \<le> fst e \<and> fst e < child e" by blast
  from randint_range[OF r1] have "offset \<le> other \<and> other < i" by simp
  with new show ?case
    by (intro exI[of _ "(other, i, w) # new"]) simp
qed

lemma start_tree_subset:
  "start_tree is es rem rnd = Inr (es', rem', rnd') \<Longrightarrow>
   set es' \<union> set rem' \<subseteq> set es \<union> set rem"
proof (induction "is" arbitrary: es rem rnd)
  case Nil
  then show ?case by auto
next
  case (Cons i "is")
  from Cons.prems obtain other rnd1 sel where
    f: "find (\<lambda>(a, b, w). a = other \<and> b = i) rem = Some sel"
    and s: "start_tree is (es @ [sel]) (remove1 sel rem) rnd1 = Inr (es', rem', rnd')"
    by (auto split: sum.splits option.splits)
  from f have "sel \<in> set rem" by (auto simp: find_Some_iff intro: nth_mem)
  with Cons.IH[OF s] set_remove1_subset[of sel rem] show ?case by auto
qed

lemma add_remaining_subset:
  "add_remaining n es rem rnd = Inr (es', rnd') \<Longrightarrow> set es' \<subseteq> set es \<union> set rem"
proof (induction n es rem rnd rule: add_remaining.induct)
  case (1 n es rem rnd)
  show ?case
  proof (cases "int (length es) < n")
    case True
    with "1.prems" obtain i rnd1 where
      r: "randint 0 (int (length rem) - 1) rnd = Inr (i, rnd1)"
      and d: "add_remaining n (es @ [rem ! nat i]) (remove1 (rem ! nat i) rem) rnd1 = Inr (es', rnd')"
      by (subst (asm) add_remaining.simps) (auto split: sum.splits simp: Let_def)
    from randint_range[OF r] have "rem ! nat i \<in> set rem" by (auto intro!: nth_mem)
    with "1.IH"[OF True r refl refl d] set_remove1_subset[of "rem ! nat i" rem]
    show ?thesis by auto
  next
    case False
    with "1.prems" show ?thesis by (subst (asm) add_remaining.simps) auto
  qed
qed


lemma spores_negative:
  "num_vertices < 0 \<Longrightarrow> 0 < spore_count \<Longrightarrow>
   spores ks num_vertices spore_count offset es rnd = Inr (es', rnd') \<Longrightarrow> es' = es"
proof (induction ks arbitrary: offset es rnd)
  case Nil
  then show ?case by simp
next
  case (Cons k ks)
  from Cons.prems(1,2) have "num_vertices div spore_count < 0"
    by (simp add: pos_imp_zdiv_neg_iff)
  then have e: "[offset + 1..offset + (if k < num_vertices mod spore_count
        then num_vertices div spore_count + 1 else num_vertices div spore_count) - 1] = []"
    by simp
  from Cons.prems(3) show ?case
    unfolding spores.simps Let_def e attach.simps
    using Cons.IH[OF Cons.prems(1,2)] by simp
qed

lemma spores_edges:
  assumes "spores [k..s - 1] V s offset es rnd = Inr (es', rnd')"
    and "0 \<le> k" "0 < s" "0 \<le> V"
    and "offset = k * (V div s) + min k (V mod s)"
  shows "\<exists>new. es' = es @ new \<and> sorted_wrt (<) (map child new) \<and>
           (\<forall>e \<in> set new. 0 \<le> fst e \<and> fst e < child e \<and> offset < child e
               \<and> child e < V)"
  using assms
proof (induction "nat (s - k)" arbitrary: k offset es rnd)
  case 0
  then have "[k..s - 1] = []" by simp
  with "0.prems"(1) show ?case by simp
next
  case (Suc m)
  then have ks: "k \<le> s - 1" and m: "m = nat (s - (k + 1))" by auto
  define q where "q = V div s"
  define r where "r = V mod s"
  have q0: "0 \<le> q" using Suc.prems(3,4) by (simp add: q_def pos_imp_zdiv_nonneg_iff)
  have r0: "0 \<le> r" "r < s" using Suc.prems(3) by (simp_all add: r_def)
  have V: "V = s * q + r" by (simp add: q_def r_def)
  define n where "n = (if k < r then q + 1 else q)"
  have off: "offset = k * q + min k r" using Suc.prems(5) by (simp add: q_def r_def)
  have "0 \<le> k * q" using Suc.prems(2) q0 by simp
  then have off0: "0 \<le> offset" using off Suc.prems(2) r0 by simp
  have off': "offset + n = (k + 1) * q + min (k + 1) r"
    unfolding off n_def by (simp add: algebra_simps min_def)
  have "(k + 1) * q \<le> s * q" using ks q0 by (intro mult_right_mono) simp_all
  moreover have "min (k + 1) r \<le> r" by simp
  ultimately have le: "offset + n \<le> V" using off' V by linarith
  from ks have up: "[k..s - 1] = k # [k + 1..s - 1]" by (simp add: upto_rec1)
  have sp_eq: "spores (k # [k + 1..s - 1]) V s offset es rnd =
     (case attach [offset + 1..offset + n - 1] offset es rnd of
            Inl e \<Rightarrow> Inl e
          | Inr (es1, rnd1) \<Rightarrow> spores [k + 1..s - 1] V s (offset + n) es1 rnd1)"
    by (simp only: spores.simps Let_def n_def q_def r_def)
  from Suc.prems(1) obtain es1 rnd1 where
    a: "attach [offset + 1..offset + n - 1] offset es rnd = Inr (es1, rnd1)"
    and sp: "spores [k + 1..s - 1] V s (offset + n) es1 rnd1 = Inr (es', rnd')"
    unfolding up sp_eq by (cases "attach [offset + 1..offset + n - 1] offset es rnd") auto
  from attach_edges[OF a] obtain new1 where
    new1: "es1 = es @ new1" "map child new1 = [offset + 1..offset + n - 1]"
      "\<forall>e \<in> set new1. offset \<le> fst e \<and> fst e < child e" by blast
  have k1: "0 \<le> k + 1" using Suc.prems(2) by simp
  have off'': "offset + n = (k + 1) * (V div s) + min (k + 1) (V mod s)"
    using off' by (simp only: q_def r_def)
  from Suc.hyps(1)[OF m sp k1 Suc.prems(3,4) off'']
  obtain new2 where
    new2: "es' = es1 @ new2" "sorted_wrt (<) (map child new2)"
      "\<forall>e \<in> set new2. 0 \<le> fst e \<and> fst e < child e \<and> offset + n < child e
          \<and> child e < V" by blast
  have c1: "\<forall>i \<in> set (map child new1). offset < i \<and> i < offset + n"
    unfolding new1(2) by simp
  have c2: "\<forall>i \<in> set (map child new2). offset + n < i"
    using new2(3) by simp
  have s1: "sorted_wrt (<) (map child new1)"
    unfolding new1(2) by (simp add: strict_sorted_iff)
  have "\<forall>x \<in> set (map child new1). \<forall>y \<in> set (map child new2). x < y"
  proof (intro ballI)
    fix x y assume "x \<in> set (map child new1)" "y \<in> set (map child new2)"
    with c1 c2 have "x < offset + n" "offset + n < y" by blast+
    then show "x < y" by simp
  qed
  with s1 new2(2) have A: "sorted_wrt (<) (map child (new1 @ new2))"
    by (simp add: sorted_wrt_append)
  have B: "\<forall>e \<in> set (new1 @ new2). 0 \<le> fst e \<and> fst e < child e \<and> offset < child e
               \<and> child e < V"
  proof
    fix e assume "e \<in> set (new1 @ new2)"
    then consider "e \<in> set new1" | "e \<in> set new2" by auto
    then show "0 \<le> fst e \<and> fst e < child e \<and> offset < child e \<and> child e < V"
    proof cases
      case 1
      then have "child e \<in> set (map child new1)" by simp
      with c1 have "offset < child e \<and> child e < offset + n" by blast
      with 1 new1(3) off0 le show ?thesis by force
    next
      case 2
      with new2(3) have "0 \<le> fst e \<and> fst e < child e \<and> offset + n < child e
          \<and> child e < V" by blast
      moreover have "0 \<le> n" using q0 by (simp add: n_def)
      ultimately show ?thesis by simp
    qed
  qed
  have "es' = es @ (new1 @ new2)" using new1(1) new2(1) by simp
  with A B show ?case by blast
qed


lemma default_vertices_range:
  "default_vertices nv rnd = Inr (V, rnd') \<Longrightarrow>
   (nv \<noteq> -1 \<longrightarrow> V = nv) \<and> (nv = -1 \<longrightarrow> 5 \<le> V \<and> V \<le> 10)"
  by (auto simp: default_vertices_def split: if_splits dest: randint_range)

lemma random_weights_within:
  assumes "random_weights ps rnd = Inr (es, rnd')" and "\<forall>(a, b) \<in> set ps. P a b"
  shows "\<forall>e \<in> set es. P (fst e) (child e)"
proof
  fix e assume "e \<in> set es"
  moreover obtain a b w where e: "e = (a, b, w)" by (cases e)
  ultimately have "(fst e, child e) \<in> set (map (\<lambda>(a, b, w). (a, b)) es)"
    by force
  then have "(fst e, child e) \<in> set ps"
    unfolding random_weights_pairs[OF assms(1)] .
  with assms(2) show "P (fst e) (child e)" by blast
qed

lemma all_pairs_within:
  "random_weights (all_pairs V) rnd = Inr (es, rnd') \<Longrightarrow> edges_within V es"
  unfolding edges_within_def
  using random_weights_within[of "all_pairs V" rnd es rnd' "\<lambda>a b. 0 \<le> a \<and> a < b \<and> b < V"]
    all_pairs_bounds[of _ _ V] by blast

lemma edges_within_subset: "edges_within V es \<Longrightarrow> set es' \<subseteq> set es \<Longrightarrow> edges_within V es'"
  by (auto simp: edges_within_def)

lemma gen_any:
  assumes "make_random_graph ''any'' nv ne rnd = Inr (Graph g)"
  shows "\<exists>V. vertices g = range V \<and> (nv \<noteq> -1 \<longrightarrow> V = nv) \<and> (nv = -1 \<longrightarrow> 5 \<le> V \<and> V \<le> 10)
           \<and> edges_within V (edges g)"
proof -
  from assms obtain V rnd1 E rnd2 es rnd3 es' rnd4 where
    dv: "default_vertices nv rnd = Inr (V, rnd1)"
    and rw: "random_weights (all_pairs V) rnd2 = Inr (es, rnd3)"
    and dr: "delete_random E es rnd3 = Inr (es', rnd4)"
    and g: "g = \<lparr>vertices = range V, edges = es'\<rparr>"
    by (auto simp: make_random_graph_def illegal_def split: sum.splits if_splits)
  from edges_within_subset[OF all_pairs_within[OF rw] delete_random_subset[OF dr]]
    default_vertices_range[OF dv] g
  show ?thesis by auto
qed

lemma gen_complete:
  assumes "make_random_graph ''complete'' nv ne rnd = Inr (Graph g)"
  shows "\<exists>V. vertices g = range V \<and> (nv \<noteq> -1 \<longrightarrow> V = nv) \<and> (nv = -1 \<longrightarrow> 5 \<le> V \<and> V \<le> 10)
           \<and> edges_within V (edges g)"
proof -
  from assms obtain V rnd1 es rnd3 where
    dv: "default_vertices nv rnd = Inr (V, rnd1)"
    and rw: "random_weights (all_pairs V) rnd1 = Inr (es, rnd3)"
    and g: "g = \<lparr>vertices = range V, edges = es\<rparr>"
    by (auto simp: make_random_graph_def illegal_def Let_def split: sum.splits if_splits)
  from all_pairs_within[OF rw] default_vertices_range[OF dv] g
  show ?thesis by auto
qed

lemma gen_connected:
  assumes "make_random_graph ''connected'' nv ne rnd = Inr (Graph g)"
  shows "\<exists>V. vertices g = range V \<and> (nv \<noteq> -1 \<longrightarrow> V = nv) \<and> (nv = -1 \<longrightarrow> 5 \<le> V \<and> V \<le> 10)
           \<and> edges_within V (edges g)"
proof -
  from assms obtain V rnd1 E rnd2 rem rnd3 es rem' rnd4 es' rnd5 where
    dv: "default_vertices nv rnd = Inr (V, rnd1)"
    and rw: "random_weights (all_pairs V) rnd2 = Inr (rem, rnd3)"
    and st: "start_tree [1..V - 1] [] rem rnd3 = Inr (es, rem', rnd4)"
    and ar: "add_remaining E es rem' rnd4 = Inr (es', rnd5)"
    and g: "g = \<lparr>vertices = range V, edges = es'\<rparr>"
    by (auto simp: make_random_graph_def illegal_def split: sum.splits if_splits)
  have "set es' \<subseteq> set rem"
    using start_tree_subset[OF st] add_remaining_subset[OF ar] by auto
  from edges_within_subset[OF all_pairs_within[OF rw] this]
    default_vertices_range[OF dv] g
  show ?thesis by auto
qed


lemma range_upt: "range V = map int [0..<nat V]"
proof (cases "0 \<le> V")
  case False
  then show ?thesis by (simp add: range_def)
next
  case True
  have "[0..int n - 1] = map int [0..<n]" for n
  proof (induction n)
    case 0
    show ?case by simp
  next
    case (Suc n)
    have "[0..int (Suc n) - 1] = [0..int n - 1] @ [int n]"
      using upto_rec2[of 0 "int n"] by simp
    with Suc show ?case by simp
  qed
  from this[of "nat V"] True show ?thesis by (simp add: range_def)
qed

lemma length_range: "length (range V) = nat V"
  by (simp add: range_upt)

lemma set_range: "set (range V) = {0..V - 1}"
  by (simp add: range_def)

lemma gen_acyclic:
  assumes "make_random_graph ''acyclic'' nv ne rnd = Inr (Graph g)"
  shows "\<exists>V. vertices g = range V \<and> (nv \<noteq> -1 \<longrightarrow> V = nv) \<and> (nv = -1 \<longrightarrow> 5 \<le> V \<and> V \<le> 10)
           \<and> edges_within V (edges g) \<and> distinct (map child (edges g))"
proof -
  from assms obtain V rnd1 E rnd2 es rnd3 where
    dv: "default_vertices nv rnd = Inr (V, rnd1)"
    and E: "\<not> E > V - 1"
    and sp: "spores (range (V - E)) V (V - E) 0 [] rnd2 = Inr (es, rnd3)"
    and g: "g = \<lparr>vertices = range V, edges = es\<rparr>"
    by (auto simp: make_random_graph_def illegal_def Let_def split: sum.splits if_splits)
  from E have s: "0 < V - E" by simp
  have "edges_within V es \<and> distinct (map child es)"
  proof (cases "V < 0")
    case True
    from spores_negative[OF True s sp] show ?thesis by (simp add: edges_within_def)
  next
    case False
    then have V0: "0 \<le> V" by simp
    have "0 = 0 * (V div (V - E)) + min 0 (V mod (V - E))" using s by simp
    from spores_edges[OF sp[unfolded range_def] _ s V0 this]
    obtain new where "es = [] @ new" "sorted_wrt (<) (map child new)"
      "\<forall>e \<in> set new. 0 \<le> fst e \<and> fst e < child e \<and> 0 < child e \<and> child e < V"
      by auto
    then show ?thesis
      by (auto simp: edges_within_def strict_sorted_iff)
  qed
  with default_vertices_range[OF dv] g show ?thesis by auto
qed

lemma gen_tree:
  assumes "make_random_graph ''tree'' nv ne rnd = Inr (Graph g)"
  shows "\<exists>V. vertices g = range V \<and> (nv \<noteq> -1 \<longrightarrow> V = nv) \<and> (nv = -1 \<longrightarrow> 5 \<le> V \<and> V \<le> 10)
           \<and> edges_within V (edges g) \<and> distinct (map child (edges g))"
proof -
  from assms obtain V rnd1 es rnd2 where
    dv: "default_vertices nv rnd = Inr (V, rnd1)"
    and at: "attach [1..V - 1] 0 [] rnd1 = Inr (es, rnd2)"
    and g: "g = \<lparr>vertices = range V, edges = es\<rparr>"
    by (auto simp: make_random_graph_def illegal_def Let_def split: sum.splits if_splits)
  from attach_edges[OF at] have c: "map child es = [1..V - 1]"
    and p: "\<forall>e \<in> set es. 0 \<le> fst e \<and> fst e < child e" by auto
  have "\<forall>e \<in> set es. child e < V"
  proof
    fix e assume "e \<in> set es"
    then have "child e \<in> set (map child es)" by simp
    then show "child e < V" unfolding c by simp
  qed
  with p have "edges_within V es" by (simp add: edges_within_def)
  moreover have "distinct (map child es)" unfolding c by simp
  ultimately show ?thesis using default_vertices_range[OF dv] g by auto
qed

lemma gen_bipartite:
  assumes "make_random_graph ''bipartite'' nv ne rnd = Inr (Graph g)"
  shows "\<exists>V. vertices g = range V \<and> (nv \<noteq> -1 \<longrightarrow> V = nv) \<and> (nv = -1 \<longrightarrow> 5 \<le> V \<and> V \<le> 10)
           \<and> (\<forall>e \<in> set (edges g). 0 \<le> fst e \<and> fst e < V div 2 \<and> V div 2 \<le> child e \<and> child e < V)"
proof -
  from assms obtain V rnd1 E rnd2 es rnd3 es' rnd4 where
    dv: "default_vertices nv rnd = Inr (V, rnd1)"
    and rw: "random_weights (List.product (filter (\<lambda>i. i < V div 2) (range V))
                (filter (\<lambda>i. \<not> i < V div 2) (range V))) rnd2 = Inr (es, rnd3)"
    and dr: "delete_random E es rnd3 = Inr (es', rnd4)"
    and g: "g = \<lparr>vertices = range V, edges = es'\<rparr>"
    by (auto simp: make_random_graph_def illegal_def Let_def split: sum.splits if_splits)
  have "\<forall>(a, b) \<in> set (List.product (filter (\<lambda>i. i < V div 2) (range V))
                (filter (\<lambda>i. \<not> i < V div 2) (range V))).
          0 \<le> a \<and> a < V div 2 \<and> V div 2 \<le> b \<and> b < V"
    by (auto simp: set_range)
  from random_weights_within[OF rw this] delete_random_subset[OF dr]
  have "\<forall>e \<in> set es'. 0 \<le> fst e \<and> fst e < V div 2 \<and> V div 2 \<le> child e \<and> child e < V"
    by blast
  with default_vertices_range[OF dv] g show ?thesis by auto
qed

lemma gen_other:
  assumes "t \<notin> set [''any'', ''complete'', ''connected'', ''acyclic'', ''tree'', ''bipartite'']"
  shows "make_random_graph t nv ne rnd \<noteq> Inr (Graph g)"
  using assms by (simp add: make_random_graph_def)

lemma gen_all:
  assumes "make_random_graph t nv ne rnd = Inr (Graph g)"
  shows "\<exists>V. vertices g = range V \<and> (nv \<noteq> -1 \<longrightarrow> V = nv) \<and> (nv = -1 \<longrightarrow> 5 \<le> V \<and> V \<le> 10)
           \<and> edges_within V (edges g)"
proof -
  from assms gen_other[of t nv ne rnd g]
  consider "t = ''any''" | "t = ''complete''" | "t = ''connected''" | "t = ''acyclic''"
    | "t = ''tree''" | "t = ''bipartite''" by auto
  then show ?thesis
  proof cases
    case 1
    from assms[unfolded 1] show ?thesis by (rule gen_any)
  next
    case 2
    from assms[unfolded 2] show ?thesis by (rule gen_complete)
  next
    case 3
    from assms[unfolded 3] show ?thesis by (rule gen_connected)
  next
    case 4
    from gen_acyclic[OF assms[unfolded 4]] obtain V where
      "vertices g = range V \<and> (nv \<noteq> -1 \<longrightarrow> V = nv) \<and> (nv = -1 \<longrightarrow> 5 \<le> V \<and> V \<le> 10)
           \<and> edges_within V (edges g) \<and> distinct (map child (edges g))" ..
    then show ?thesis by (intro exI[of _ V]) simp
  next
    case 5
    from gen_tree[OF assms[unfolded 5]] obtain V where
      "vertices g = range V \<and> (nv \<noteq> -1 \<longrightarrow> V = nv) \<and> (nv = -1 \<longrightarrow> 5 \<le> V \<and> V \<le> 10)
           \<and> edges_within V (edges g) \<and> distinct (map child (edges g))" ..
    then show ?thesis by (intro exI[of _ V]) simp
  next
    case 6
    from gen_bipartite[OF assms[unfolded 6]] obtain V where
      V: "vertices g = range V \<and> (nv \<noteq> -1 \<longrightarrow> V = nv) \<and> (nv = -1 \<longrightarrow> 5 \<le> V \<and> V \<le> 10)
       \<and> (\<forall>e \<in> set (edges g). 0 \<le> fst e \<and> fst e < V div 2 \<and> V div 2 \<le> child e \<and> child e < V)"
      ..
    have "edges_within V (edges g)"
      unfolding edges_within_def
    proof
      fix e assume "e \<in> set (edges g)"
      with V have "0 \<le> fst e \<and> fst e < V div 2 \<and> V div 2 \<le> child e \<and> child e < V" by blast
      then show "0 \<le> fst e \<and> fst e < child e \<and> child e < V" by simp
    qed
    with V show ?thesis by (intro exI[of _ V]) simp
  qed
qed


text \<open>
  Claim C10. Whatever the type, the requested counts and the randomness source, a graph
  description returned by the generator has the vertex sequence 0, 1, ..., V - 1, in this
  order, and both endpoints of every edge are among these vertices; a requested vertex
  count is the number of vertices.
\<close>

theorem generated_vertices_consecutive:
  "make_random_graph t nv ne rnd = Inr (Graph g) \<Longrightarrow>
     vertices g = map int [0..<length (vertices g)] \<and>
     (\<forall>(a, b, w) \<in> set (edges g). a \<in> set (vertices g) \<and> b \<in> set (vertices g)) \<and>
     (0 \<le> nv \<longrightarrow> int (length (vertices g)) = nv)"
proof -
  assume "make_random_graph t nv ne rnd = Inr (Graph g)"
  from gen_all[OF this] obtain V where
    V: "vertices g = range V" "nv \<noteq> -1 \<longrightarrow> V = nv" "edges_within V (edges g)" by blast
  have 1: "vertices g = map int [0..<length (vertices g)]"
    unfolding V(1) length_range by (rule range_upt)
  have 2: "\<forall>(a, b, w) \<in> set (edges g). a \<in> set (vertices g) \<and> b \<in> set (vertices g)"
  proof (clarify)
    fix a b w assume "(a, b, w) \<in> set (edges g)"
    with V(3) have "0 \<le> a \<and> a < b \<and> b < V" by (force simp: edges_within_def)
    then show "a \<in> set (vertices g) \<and> b \<in> set (vertices g)"
      unfolding V(1) set_range by simp
  qed
  have 3: "0 \<le> nv \<longrightarrow> int (length (vertices g)) = nv"
    using V(2) by (simp add: V(1) length_range)
  from 1 2 3 show ?thesis by blast
qed

theorem generated_vertices_consecutive_witness:
  "make_random_graph ''connected'' 3 2 (\<lambda>_. 0)
     = Inr (Graph \<lparr>vertices = [0, 1, 2], edges = [(0, 1, 1), (0, 2, 1)]\<rparr>)
   \<and> [0, 1, 2] = map int [0..<length [0, 1, 2 :: int]]
   \<and> (0::int) \<in> set [0, 1, 2] \<and> (1::int) \<in> set [0, 1, 2] \<and> (2::int) \<in> set [0, 1, 2]
   \<and> int (length [0, 1, 2 :: int]) = 3"
proof -
  have e: "make_random_graph ''connected'' 3 2 (\<lambda>_. 0)
     = Inr (Graph \<lparr>vertices = [0, 1, 2], edges = [(0, 1, 1), (0, 2, 1)]\<rparr>)"
    by code_simp
  from generated_vertices_consecutive[OF e] e show ?thesis by simp
qed

text \<open>
  Claim C7. In a graph description returned for the type \<open>bipartite\<close>, every edge starts
  in the first \<open>V div 2\<close> declared vertices and ends in the remaining ones, and the two
  halves share no vertex: no edge joins two vertices of the same half.
\<close>

theorem bipartite_edges_cross_halves:
  "make_random_graph ''bipartite'' nv ne rnd = Inr (Graph g) \<Longrightarrow>
     set (take (length (vertices g) div 2) (vertices g))
       \<inter> set (drop (length (vertices g) div 2) (vertices g)) = {} \<and>
     (\<forall>(a, b, w) \<in> set (edges g).
        a \<in> set (take (length (vertices g) div 2) (vertices g)) \<and>
        b \<in> set (drop (length (vertices g) div 2) (vertices g)))"
proof -
  assume "make_random_graph ''bipartite'' nv ne rnd = Inr (Graph g)"
  from gen_bipartite[OF this] obtain V where
    V: "vertices g = range V"
    and E: "\<forall>e \<in> set (edges g). 0 \<le> fst e \<and> fst e < V div 2 \<and> V div 2 \<le> child e \<and> child e < V"
    by blast
  define n where "n = nat V"
  define h where "h = n div 2"
  have vs: "vertices g = map int [0..<n]" unfolding V n_def by (rule range_upt)
  have len: "length (vertices g) = n" by (simp add: vs)
  have hn: "h \<le> n" by (simp add: h_def)
  have tk: "set (take h (vertices g)) = int ` {0..<h}"
    using hn by (simp add: vs take_map min_def)
  have dr: "set (drop h (vertices g)) = int ` {h..<n}"
    by (simp add: vs drop_map)
  have 1: "set (take h (vertices g)) \<inter> set (drop h (vertices g)) = {}"
    unfolding tk dr by auto
  have 2: "\<forall>(a, b, w) \<in> set (edges g). a \<in> set (take h (vertices g)) \<and> b \<in> set (drop h (vertices g))"
  proof (clarify)
    fix a b w assume "(a, b, w) \<in> set (edges g)"
    with E have ab: "0 \<le> a" "a < V div 2" "V div 2 \<le> b" "b < V" by force+
    then have V0: "0 \<le> V" by simp
    then have hV: "int h = V div 2" by (simp add: h_def n_def zdiv_int)
    have "a = int (nat a)" "nat a < h" using ab hV by simp_all
    then have A: "a \<in> int ` {0..<h}" by (metis atLeastLessThan_iff imageI zero_le)
    have "b = int (nat b)" "h \<le> nat b" "nat b < n" using ab hV V0 by (simp_all add: n_def)
    then have B: "b \<in> int ` {h..<n}" by (metis atLeastLessThan_iff imageI)
    from A B show "a \<in> set (take h (vertices g)) \<and> b \<in> set (drop h (vertices g))"
      unfolding tk dr by simp
  qed
  from 1 2 show ?thesis unfolding len h_def by simp
qed

theorem bipartite_edges_cross_halves_witness:
  "make_random_graph ''bipartite'' 4 2 (\<lambda>_. 0)
     = Inr (Graph \<lparr>vertices = [0, 1, 2, 3], edges = [(1, 2, 1), (1, 3, 1)]\<rparr>)
   \<and> set (take 2 [0, 1, 2, 3 :: int]) \<inter> set (drop 2 [0, 1, 2, 3]) = {}
   \<and> (1::int) \<in> set (take 2 [0, 1, 2, 3]) \<and> (2::int) \<in> set (drop 2 [0, 1, 2, 3])
   \<and> (1::int) \<in> set (take 2 [0, 1, 2, 3]) \<and> (3::int) \<in> set (drop 2 [0, 1, 2, 3])"
proof -
  have e: "make_random_graph ''bipartite'' 4 2 (\<lambda>_. 0)
     = Inr (Graph \<lparr>vertices = [0, 1, 2, 3], edges = [(1, 2, 1), (1, 3, 1)]\<rparr>)"
    by code_simp
  from bipartite_edges_cross_halves[OF e] e show ?thesis by simp
qed

section \<open>Cycle detection on forests and on graphs with a triangle\<close>































section \<open>Cycle detection on graphs with a triangle\<close>






























end
